theory Spec2Isabelle
  imports Main "HOL-Library.Sublist"
begin

section \<open>JavaScript strings\<close>

text \<open>
  A JavaScript string is a sequence of UTF-16 code units. A code unit is modelled as a
  natural number, so that the non-breaking space (U+00A0) and the Unicode white space
  and line terminators that \<open>trim\<close>, \<open>\s\<close>, \<open>.\<close> and \<open>^\<close> look at are all
  representable. \<open>js\<close> turns an ASCII literal into such a string.
\<close>

type_synonym jsstring = "nat list"

definition js :: "string \<Rightarrow> jsstring" where
  "js s = map of_char s"

text \<open>ECMAScript WhiteSpace and LineTerminator code points (what \<open>trim\<close> and \<open>\s\<close> match).\<close>

definition is_white_space :: "nat \<Rightarrow> bool" where
  "is_white_space c \<longleftrightarrow>
     c = 9 \<or> c = 10 \<or> c = 11 \<or> c = 12 \<or> c = 13 \<or> c = 32 \<or> c = 160 \<or> c = 5760 \<or>
     (8192 \<le> c \<and> c \<le> 8202) \<or> c = 8232 \<or> c = 8233 \<or> c = 8239 \<or> c = 8287 \<or>
     c = 12288 \<or> c = 65279"

text \<open>\<open>String.prototype.trim\<close>.\<close>

definition trim :: "jsstring \<Rightarrow> jsstring" where
  "trim s = rev (dropWhile is_white_space (rev (dropWhile is_white_space s)))"

text \<open>\<open>String.prototype.startsWith\<close>.\<close>

definition startsWith :: "jsstring \<Rightarrow> jsstring \<Rightarrow> bool" where
  "startsWith s p = prefix p s"

text \<open>\<open>Number.prototype.toString\<close> on a non-negative integer (decimal digits).\<close>

fun toString_nat :: "nat \<Rightarrow> jsstring" where
  "toString_nat n =
     (if n < 10 then [48 + n] else toString_nat (n div 10) @ [48 + n mod 10])"

declare toString_nat.simps [simp del]

section \<open>The response normalizer (services/geminiService.ts)\<close>

subsection \<open>Character classes and string operations\<close>

abbreviation LF :: nat where "LF \<equiv> 10"
abbreviation DQUOTE :: nat where "DQUOTE \<equiv> 34"

text \<open>The class \<open>\w\<close> of a regular expression without the \<open>u\<close> and \<open>i\<close> flags.\<close>

definition is_word :: "nat \<Rightarrow> bool" where
  "is_word c \<longleftrightarrow> (48 \<le> c \<and> c \<le> 57) \<or> (65 \<le> c \<and> c \<le> 90) \<or> c = 95 \<or> (97 \<le> c \<and> c \<le> 122)"

text \<open>
  ECMAScript LineTerminator: what \<open>.\<close> does not match, and after which \<open>^\<close> matches
  under the \<open>m\<close> flag.
\<close>

definition is_line_terminator :: "nat \<Rightarrow> bool" where
  "is_line_terminator c \<longleftrightarrow> c = 10 \<or> c = 13 \<or> c = 8232 \<or> c = 8233"

text \<open>\<open>String.prototype.includes\<close>.\<close>

definition str_includes :: "jsstring \<Rightarrow> jsstring \<Rightarrow> bool" where
  "str_includes s p = sublist p s"

text \<open>\<open>s.split("\n")\<close>: the result is never empty.\<close>

fun split_lines :: "jsstring \<Rightarrow> jsstring list" where
  "split_lines [] = [[]]"
| "split_lines (c # cs) =
     (if c = LF then [] # split_lines cs
      else (c # hd (split_lines cs)) # tl (split_lines cs))"

text \<open>\<open>lines.join("\n")\<close>.\<close>

fun join_lines :: "jsstring list \<Rightarrow> jsstring" where
  "join_lines [] = []"
| "join_lines [l] = l"
| "join_lines (l # ls) = l @ LF # join_lines ls"

subsection \<open>Global replacement\<close>

text \<open>
  \<open>s.replace(/re/g, replacement)\<close> scans the string from the left. At each position
  the expression is tried; when it matches, the replacement is appended and the scan
  goes on after the match, otherwise the code unit is copied and the scan goes on at
  the next position. A matcher stands for one regular expression together with its
  replacement: given the text from the position on, it returns the replacement text
  and the length of the match. Every expression below matches at least one code unit.
\<close>

type_synonym matcher = "jsstring \<Rightarrow> (jsstring \<times> nat) option"

fun replace_global :: "matcher \<Rightarrow> jsstring \<Rightarrow> jsstring" where
  "replace_global m [] = []"
| "replace_global m (c # cs) =
     (case m (c # cs) of
        Some (replacement, n) \<Rightarrow> replacement @ replace_global m (drop (n - 1) cs)
      | None \<Rightarrow> c # replace_global m cs)"

text \<open>A literal pattern, as in \<open>/\r\n/g\<close>.\<close>

definition match_literal :: "jsstring \<Rightarrow> jsstring \<Rightarrow> matcher" where
  "match_literal pat replacement s =
     (if prefix pat s then Some (replacement, length pat) else None)"

subsection \<open>Step 1: normalize the environment\<close>

text \<open>
  \<open>code.replace(/\\n/g, '\n').replace(/\r\n/g, '\n').replace(/\u00A0/g, " ")
      .replace(/[three backticks]mermaid/g, "").replace(/[three backticks]/g, "").trim()\<close>
\<close>

definition normalize_environment :: "jsstring \<Rightarrow> jsstring" where
  "normalize_environment code =
     trim
       (replace_global (match_literal [96, 96, 96] [])
         (replace_global (match_literal ([96, 96, 96] @ js ''mermaid'') [])
           (replace_global (match_literal [160] [32])
             (replace_global (match_literal [13, 10] [LF])
               (replace_global (match_literal [92, 110] [LF]) code)))))"

subsection \<open>Class diagrams\<close>

text \<open>
  \<open>/enum\s+(\w+)\s*\{/g\<close> with the replacement \<open>"class $1 {\n    <<enumeration>>"\<close>.
  The classes \<open>\s\<close> and \<open>\w\<close> are disjoint and \<open>{\<close> is in neither, so each greedy
  quantifier can only succeed with its longest run.
\<close>

definition match_enum :: matcher where
  "match_enum s =
     (if prefix (js ''enum'') s then
        let r1 = drop 4 s;
            ws1 = takeWhile is_white_space r1; r2 = dropWhile is_white_space r1;
            name = takeWhile is_word r2; r3 = dropWhile is_word r2;
            ws2 = takeWhile is_white_space r3; r4 = dropWhile is_white_space r3
        in if ws1 \<noteq> [] \<and> name \<noteq> [] \<and> prefix [123] r4
           then Some (js ''class '' @ name @ js '' {'' @ [LF] @ js ''    <<enumeration>>'',
                      4 + length ws1 + length name + length ws2 + 1)
           else None
      else None)"

text \<open>\<open>/(\w+)\s*->\s*(\w+)/g\<close> with the replacement \<open>"$1 --|> $2"\<close>.\<close>

definition match_arrow :: matcher where
  "match_arrow s =
     (let w1 = takeWhile is_word s; r1 = dropWhile is_word s;
          ws1 = takeWhile is_white_space r1; r2 = dropWhile is_white_space r1
      in if w1 \<noteq> [] \<and> prefix (js ''->'') r2 then
           let r3 = drop 2 r2;
               ws2 = takeWhile is_white_space r3; r4 = dropWhile is_white_space r3;
               w2 = takeWhile is_word r4
           in if w2 \<noteq> []
              then Some (w1 @ js '' --|> '' @ w2,
                         length w1 + length ws1 + 2 + length ws2 + length w2)
              else None
         else None)"

text \<open>
  \<open>/^(\s*)([+\-#~])(\w+)/gm\<close> with the replacement \<open>"$1$2 $3"\<close>. Under the \<open>m\<close>
  flag \<open>^\<close> matches at the start of the string and after a line terminator, so the
  scan carries whether the position is at the start of a line.
\<close>

definition match_visibility :: matcher where
  "match_visibility s =
     (let ws = takeWhile is_white_space s; r1 = dropWhile is_white_space s
      in case r1 of
           [] \<Rightarrow> None
         | marker # r2 \<Rightarrow>
             if marker = 43 \<or> marker = 45 \<or> marker = 35 \<or> marker = 126 then
               let w = takeWhile is_word r2
               in if w \<noteq> [] then Some (ws @ [marker, 32] @ w, length ws + 1 + length w)
                  else None
             else None)"

fun replace_visibility :: "bool \<Rightarrow> jsstring \<Rightarrow> jsstring" where
  "replace_visibility at_line_start [] = []"
| "replace_visibility at_line_start (c # cs) =
     (case (if at_line_start then match_visibility (c # cs) else None) of
        Some (replacement, n) \<Rightarrow>
          replacement @
            replace_visibility (is_line_terminator ((c # cs) ! (n - 1))) (drop (n - 1) cs)
      | None \<Rightarrow> c # replace_visibility (is_line_terminator c) cs)"

definition fix_class_diagram :: "jsstring \<Rightarrow> jsstring" where
  "fix_class_diagram fixed =
     replace_visibility True
       (replace_global match_arrow (replace_global match_enum fixed))"

subsection \<open>Use case diagrams\<close>

text \<open>
  \<open>/\(([^"\n]+)\)/g\<close> with a replacer function. The greedy class takes the whole run
  of code units other than \<open>"\<close> and line feed and gives back until a \<open>)\<close> follows:
  the content ends before the last \<open>)\<close> of the run that is not its first code unit.
\<close>

definition usecase_replacer :: "jsstring \<Rightarrow> jsstring \<Rightarrow> jsstring" where
  "usecase_replacer m content =
     (if startsWith content [DQUOTE] then m
      else [40, DQUOTE] @ trim content @ [DQUOTE, 41])"

definition match_usecase :: matcher where
  "match_usecase s =
     (case s of
        [] \<Rightarrow> None
      | c # r \<Rightarrow>
          if c \<noteq> 40 then None
          else
            let run = takeWhile (\<lambda>x. x \<noteq> DQUOTE \<and> x \<noteq> LF) r;
                ends = filter (\<lambda>j. run ! j = 41) [1..<length run]
            in if ends = [] then None
               else
                 let content = take (last ends) run
                 in Some (usecase_replacer (40 # content @ [41]) content,
                          length content + 2))"

definition fix_usecase_diagram :: "jsstring \<Rightarrow> jsstring" where
  "fix_usecase_diagram fixed = replace_global match_usecase fixed"

subsection \<open>Flowcharts\<close>

text \<open>
  \<open>/\["?(.*?)"?\]/g\<close> with the replacement \<open>'["$1"]'\<close>, and the same for \<open>( )\<close> and
  \<open>{ }\<close>. After the opening bracket and an optional quote, the lazy group grows one code
  unit at a time (\<open>.\<close> matches no line terminator) until the closing bracket, or a
  quote and the closing bracket, follows. \<open>scan_label\<close> returns the group and the
  number of code units read, the closing ones included.
\<close>

fun scan_label :: "nat \<Rightarrow> jsstring \<Rightarrow> (jsstring \<times> nat) option" where
  "scan_label cl [] = None"
| "scan_label cl (c # cs) =
     (if c = cl then Some ([], 1)
      else if c = DQUOTE \<and> prefix [cl] cs then Some ([], 2)
      else if is_line_terminator c then None
      else (case scan_label cl cs of
              None \<Rightarrow> None
            | Some (g, k) \<Rightarrow> Some (c # g, Suc k)))"

definition match_label :: "nat \<Rightarrow> nat \<Rightarrow> matcher" where
  "match_label op cl s =
     (case s of
        [] \<Rightarrow> None
      | c # r \<Rightarrow>
          if c \<noteq> op then None
          else
            let q = (if prefix [DQUOTE] r then 1 else 0)
            in case scan_label cl (drop q r) of
                 None \<Rightarrow> None
               | Some (g, k) \<Rightarrow> Some ([op, DQUOTE] @ g @ [DQUOTE, cl], 1 + q + k))"

text \<open>The three replacements applied to a line of a flowchart.\<close>

definition quote_labels :: "jsstring \<Rightarrow> jsstring" where
  "quote_labels line =
     replace_global (match_label 123 125)
       (replace_global (match_label 40 41)
         (replace_global (match_label 91 93) line))"

definition fix_flowchart_line :: "jsstring \<Rightarrow> jsstring" where
  "fix_flowchart_line line =
     (if str_includes line (js ''flowchart'') \<or> str_includes line (js ''graph'') then line
      else quote_labels line)"

definition fix_flowchart :: "jsstring list \<Rightarrow> jsstring" where
  "fix_flowchart lines = join_lines (map fix_flowchart_line lines)"

subsection \<open>fixMermaidCode\<close>

definition header_of :: "jsstring \<Rightarrow> jsstring" where
  "header_of fixed = trim (hd (split_lines fixed))"

definition fixMermaidCode :: "jsstring \<Rightarrow> jsstring" where
  "fixMermaidCode code =
     (let fixed = normalize_environment code;
          lines = split_lines fixed;
          header = trim (hd lines)
      in if startsWith header (js ''classDiagram'') then fix_class_diagram fixed
         else if startsWith header (js ''usecaseDiagram'') then fix_usecase_diagram fixed
         else if startsWith header (js ''flowchart'') \<or> startsWith header (js ''graph'')
         then fix_flowchart lines
         else fixed)"

subsection \<open>Predicates of the statements\<close>

text \<open>
  A text on which step 1 has nothing to do: no escaped newline, no carriage return
  before a line feed, no non-breaking space, no code fence, and no white space at
  either end.
\<close>

definition environment_normal :: "jsstring \<Rightarrow> bool" where
  "environment_normal code \<longleftrightarrow>
     \<not> str_includes code [92, 110] \<and> \<not> str_includes code [13, 10] \<and>
     \<not> str_includes code [160] \<and> \<not> str_includes code [96, 96, 96] \<and>
     (code = [] \<or> (\<not> is_white_space (hd code) \<and> \<not> is_white_space (last code)))"

text \<open>
  The text \<open>enum Foo {\<close> for a name \<open>Foo\<close>, and the class declaration with the
  stereotype that replaces it.
\<close>

definition enum_declaration :: "jsstring \<Rightarrow> jsstring" where
  "enum_declaration name = js ''enum '' @ name @ js '' {''"

definition class_declaration :: "jsstring \<Rightarrow> jsstring" where
  "class_declaration name = js ''class '' @ name @ js '' {'' @ [LF] @ js ''    <<enumeration>>''"

text \<open>
  \<open>has_keyword s kw\<close>: the word \<open>kw\<close> occurs in \<open>s\<close> as a word of its own, with no
  word character directly before or after it.
\<close>

fun has_keyword_from :: "bool \<Rightarrow> jsstring \<Rightarrow> jsstring \<Rightarrow> bool" where
  "has_keyword_from after_word kw [] = False"
| "has_keyword_from after_word kw (c # cs) =
     ((\<not> after_word \<and> prefix kw (c # cs) \<and>
       (case drop (length kw) (c # cs) of [] \<Rightarrow> True | d # ds \<Rightarrow> \<not> is_word d)) \<or>
      has_keyword_from (is_word c) kw cs)"

definition has_keyword :: "jsstring \<Rightarrow> jsstring \<Rightarrow> bool" where
  "has_keyword s kw = has_keyword_from False kw s"

subsection \<open>Notions used in the proofs\<close>

text \<open>
  The texts that the lazy group of a label expression with closing bracket \<open>cl\<close> can
  capture: no closing bracket, no quote directly before a closing bracket, no line
  terminator.
\<close>

fun label_body :: "nat \<Rightarrow> jsstring \<Rightarrow> bool" where
  "label_body cl [] = True"
| "label_body cl (c # cs) =
     (c \<noteq> cl \<and> \<not> (c = DQUOTE \<and> prefix [cl] cs) \<and> \<not> is_line_terminator c \<and>
      label_body cl cs)"

text \<open>
  \<open>quotes_inserted op cl s s'\<close>: \<open>s'\<close> is \<open>s\<close> with quotes inserted directly after
  some occurrences of \<open>op\<close> and directly before some occurrences of \<open>cl\<close>.
\<close>

inductive quotes_inserted :: "nat \<Rightarrow> nat \<Rightarrow> jsstring \<Rightarrow> jsstring \<Rightarrow> bool"
  for op :: nat and cl :: nat where
    qi_Nil: "quotes_inserted op cl [] []"
  | qi_Cons: "quotes_inserted op cl s s' \<Longrightarrow> quotes_inserted op cl (c # s) (c # s')"
  | qi_after: "quotes_inserted op cl s s' \<Longrightarrow> quotes_inserted op cl (op # s) (op # DQUOTE # s')"
  | qi_before: "quotes_inserted op cl s s' \<Longrightarrow> quotes_inserted op cl (cl # s) (DQUOTE # cl # s')"

text \<open>The text after the optional quote that may follow an opening bracket.\<close>

definition after_quote :: "jsstring \<Rightarrow> jsstring" where
  "after_quote r = drop (if prefix [DQUOTE] r then 1 else 0) r"

text \<open>\<open>quotes_added s s'\<close>: \<open>s'\<close> is \<open>s\<close> with quotes inserted anywhere.\<close>

inductive quotes_added :: "jsstring \<Rightarrow> jsstring \<Rightarrow> bool" where
    qa_Nil: "quotes_added [] []"
  | qa_Cons: "quotes_added s s' \<Longrightarrow> quotes_added (c # s) (c # s')"
  | qa_ins: "quotes_added s s' \<Longrightarrow> quotes_added s (DQUOTE # s')"


text \<open>
  The texts that the expression of the enum rule matches: \<open>enum\<close>, white space, a
  name of word characters, optional white space, and an opening brace.
\<close>

definition enum_match :: "jsstring \<Rightarrow> bool" where
  "enum_match m \<longleftrightarrow>
     (\<exists>ws1 name ws2.
        m = js ''enum'' @ ws1 @ name @ ws2 @ [123] \<and>
        ws1 \<noteq> [] \<and> (\<forall>c\<in>set ws1. is_white_space c) \<and>
        name \<noteq> [] \<and> (\<forall>c\<in>set name. is_word c) \<and>
        (\<forall>c\<in>set ws2. is_white_space c))"

text \<open>
  \<open>keyword_in kw t\<close>: the text \<open>t\<close> has the word \<open>kw\<close> with no word character
  directly before or after it.
\<close>

definition keyword_in :: "jsstring \<Rightarrow> jsstring \<Rightarrow> bool" where
  "keyword_in kw t \<longleftrightarrow>
     (\<exists>a b. t = a @ kw @ b \<and> (a = [] \<or> \<not> is_word (last a)) \<and> (b = [] \<or> \<not> is_word (hd b)))"
section \<open>Data model (types.ts)\<close>

text \<open>
  \<open>VisualizationType\<close> is the union \<open>'mermaid' | 'recharts' | 'svg'\<close>. The value comes
  from a parsed response, and \<open>processPrompt\<close> checks at run time that it is one of
  the three, so a fourth constructor stands for any other string.
\<close>

datatype VisualizationType = Mermaid | Recharts | Svg | OtherType jsstring

datatype MermaidTheme = ThemeDefault | ThemeNeutral | ThemeDark | ThemeForest | ThemeBase

text \<open>
  \<open>VizResponse\<close>. The chart configuration is whatever \<open>JSON.parse\<close> returns, so its
  type is a parameter. The field \<open>id\<close> is called \<open>viz_id\<close> here.
\<close>

record 'j VizResponse =
  viz_id :: "jsstring option"
  visualizationType :: VisualizationType
  title :: jsstring
  explanation :: jsstring
  originalPrompt :: "jsstring option"
  mermaidCode :: "jsstring option"
  mermaidTheme :: "MermaidTheme option"
  svgCode :: "jsstring option"
  rechartsConfig :: "'j option"

text \<open>\<open>HistoryItem extends VizResponse\<close>.\<close>

record 'j HistoryItem = "'j VizResponse" +
  prompt :: jsstring
  timestamp :: nat

section \<open>The state of the App component\<close>

datatype Status = Idle | Analyzing | Generating | Rendering

datatype ToastType = ToastSuccess | ToastError | ToastInfo

text \<open>
  The \<open>useState\<close> cells that the handlers below read or write. The cell \<open>prompt\<close> is
  called \<open>promptInput\<close> (the record \<open>HistoryItem\<close> has a field \<open>prompt\<close>). The
  suggestion lists and the theme are left out: no handler below reads them.
\<close>

record 'j AppState =
  promptInput :: jsstring
  status :: Status
  vizStack :: "'j VizResponse list"
  stackIndex :: int
  history :: "'j HistoryItem list"
  showCode :: bool
  showSettings :: bool
  showSuggestions :: bool
  toast :: "(jsstring \<times> ToastType) option"
  isFullscreen :: bool
  deleteId :: "jsstring option"
  editableCode :: jsstring

text \<open>The initial values of the \<open>useState\<close> calls.\<close>

definition initialState :: "'j AppState" where
  "initialState =
     \<lparr> promptInput = [], status = Idle, vizStack = [], stackIndex = -1, history = [],
       showCode = False, showSettings = False, showSuggestions = False, toast = None,
       isFullscreen = False, deleteId = None, editableCode = [] \<rparr>"

text \<open>
  \<open>currentViz = stackIndex >= 0 && vizStack.length > stackIndex ? vizStack[stackIndex] : null\<close>
\<close>

definition currentViz :: "'j AppState \<Rightarrow> 'j VizResponse option" where
  "currentViz s =
     (if stackIndex s \<ge> 0 \<and> int (length (vizStack s)) > stackIndex s
      then Some (vizStack s ! nat (stackIndex s)) else None)"

text \<open>
  \<open>Array.prototype.slice(0, end)\<close>: a negative \<open>end\<close> counts from the end of the
  array, and both bounds are clamped to the array.
\<close>

definition slice0 :: "'a list \<Rightarrow> int \<Rightarrow> 'a list" where
  "slice0 xs e = (if e < 0 then take (nat (int (length xs) + e)) xs else take (nat e) xs)"

definition showToast :: "jsstring \<Rightarrow> ToastType \<Rightarrow> 'j AppState \<Rightarrow> 'j AppState" where
  "showToast message type s = s\<lparr>toast := Some (message, type)\<rparr>"

definition pushToStack :: "'j VizResponse \<Rightarrow> 'j AppState \<Rightarrow> 'j AppState" where
  "pushToStack viz s =
     (let newStack = slice0 (vizStack s) (stackIndex s + 1) @ [viz]
      in s\<lparr>vizStack := newStack, stackIndex := int (length newStack) - 1\<rparr>)"

definition handleUndo :: "'j AppState \<Rightarrow> 'j AppState" where
  "handleUndo s =
     (if stackIndex s > 0
      then showToast (js ''Undone'') ToastSuccess (s\<lparr>stackIndex := stackIndex s - 1\<rparr>)
      else s)"

definition handleRedo :: "'j AppState \<Rightarrow> 'j AppState" where
  "handleRedo s =
     (if stackIndex s < int (length (vizStack s)) - 1
      then showToast (js ''Redone'') ToastSuccess (s\<lparr>stackIndex := stackIndex s + 1\<rparr>)
      else s)"

text \<open>The updater \<open>prev => [newHistoryItem, ...prev].slice(0, 5)\<close> of \<open>processPrompt\<close>.\<close>

definition historyUpdater :: "'j HistoryItem \<Rightarrow> 'j HistoryItem list \<Rightarrow> 'j HistoryItem list" where
  "historyUpdater newHistoryItem prev = slice0 (newHistoryItem # prev) 5"

text \<open>
  What the effect on \<open>history\<close> writes to local storage:
  \<open>JSON.stringify(history.slice(0, 5))\<close>.
\<close>

definition persistedHistory :: "'j AppState \<Rightarrow> 'j HistoryItem list" where
  "persistedHistory s = slice0 (history s) 5"

text \<open>
  \<open>processPrompt\<close>. The call of \<open>generateVisualization\<close> goes to the network, so its
  outcome is a parameter: \<open>Inl message\<close> is the \<open>Error\<close> it throws, \<open>Inr response\<close>
  the value it resolves to. \<open>now1\<close> and \<open>now2\<close> are the two readings of \<open>Date.now()\<close>.
  The \<open>alert\<close> for an unsupported type shows a dialog and touches no state cell.
\<close>

definition processPrompt ::
  "(jsstring \<Rightarrow> 'j VizResponse option \<Rightarrow> jsstring + 'j VizResponse) \<Rightarrow> nat \<Rightarrow> nat \<Rightarrow>
   jsstring \<Rightarrow> bool \<Rightarrow> 'j AppState \<Rightarrow> 'j AppState" where
  "processPrompt generateVisualization now1 now2 promptText isRefinement s =
     (if trim promptText = [] then s
      else
        let s1 = s\<lparr>status := Analyzing, showCode := False, showSettings := False,
                    showSuggestions := False\<rparr>;
            context = (if isRefinement then currentViz s else None)
        in case generateVisualization promptText context of
             Inl message \<Rightarrow>
               (showToast (if message = [] then js ''Failed to generate visualization''
                           else message) ToastError s1)\<lparr>status := Idle\<rparr>
           | Inr response \<Rightarrow>
               if visualizationType response \<notin> {Mermaid, Recharts, Svg}
               then s1\<lparr>status := Idle\<rparr>
               else
                 let newId = toString_nat now1;
                     vizWithId = response\<lparr>viz_id := Some newId,
                                           originalPrompt := Some promptText\<rparr>;
                     s2 = (if isRefinement \<and> currentViz s \<noteq> None
                           then pushToStack vizWithId s1
                           else s1\<lparr>vizStack := [vizWithId], stackIndex := 0\<rparr>);
                     s3 = (if promptInput s = promptText then s2\<lparr>promptInput := []\<rparr>
                           else s2);
                     newHistoryItem =
                       VizResponse.extend vizWithId (HistoryItem.fields promptText now2);
                     s4 = s3\<lparr>history := historyUpdater newHistoryItem (history s3)\<rparr>
                 in (showToast (if isRefinement then js ''Visualization updated''
                                else js ''Visualization generated'') ToastSuccess s4)
                      \<lparr>status := Idle\<rparr>)"

definition handleSubmit ::
  "(jsstring \<Rightarrow> 'j VizResponse option \<Rightarrow> jsstring + 'j VizResponse) \<Rightarrow> nat \<Rightarrow> nat \<Rightarrow>
   'j AppState \<Rightarrow> 'j AppState" where
  "handleSubmit generateVisualization now1 now2 s =
     processPrompt generateVisualization now1 now2 (promptInput s) (currentViz s \<noteq> None) s"

text \<open>\<open>if (!currentViz?.originalPrompt) return;\<close> also stops on the empty string.\<close>

definition handleRegenerate ::
  "(jsstring \<Rightarrow> 'j VizResponse option \<Rightarrow> jsstring + 'j VizResponse) \<Rightarrow> nat \<Rightarrow> nat \<Rightarrow>
   'j AppState \<Rightarrow> 'j AppState" where
  "handleRegenerate generateVisualization now1 now2 s =
     (case currentViz s of
        None \<Rightarrow> s
      | Some cur \<Rightarrow>
          (case originalPrompt cur of
             None \<Rightarrow> s
           | Some p \<Rightarrow>
               if p = [] then s
               else processPrompt generateVisualization now1 now2 p False s))"

definition handleNewViz :: "'j AppState \<Rightarrow> 'j AppState" where
  "handleNewViz s =
     s\<lparr>vizStack := [], stackIndex := -1, promptInput := [], isFullscreen := False,
       showSettings := False\<rparr>"

text \<open>
  \<open>handleUpdateVizFromCode\<close>. \<open>JSON.parse\<close> is a parameter: \<open>Inl message\<close> is the
  \<open>SyntaxError\<close> it throws, \<open>Inr v\<close> the parsed value.
\<close>

definition handleUpdateVizFromCode ::
  "(jsstring \<Rightarrow> jsstring + 'j) \<Rightarrow> 'j AppState \<Rightarrow> 'j AppState" where
  "handleUpdateVizFromCode JSON_parse s =
     (case currentViz s of
        None \<Rightarrow> s
      | Some cur \<Rightarrow>
          (case (if visualizationType cur = Mermaid
                 then Inr (cur\<lparr>mermaidCode := Some (editableCode s)\<rparr>)
                 else if visualizationType cur = Recharts
                 then (case JSON_parse (editableCode s) of
                         Inl message \<Rightarrow> Inl message
                       | Inr parsed \<Rightarrow> Inr (cur\<lparr>rechartsConfig := Some parsed\<rparr>))
                 else if visualizationType cur = Svg
                 then Inr (cur\<lparr>svgCode := Some (editableCode s)\<rparr>)
                 else Inr cur) of
             Inr updatedViz \<Rightarrow>
               showToast (js ''Visualization updated from code'') ToastSuccess
                 (pushToStack updatedViz s)
           | Inl message \<Rightarrow>
               showToast (js ''Invalid syntax: '' @ message) ToastError s))"

definition handleCustomizationUpdate :: "'j VizResponse \<Rightarrow> 'j AppState \<Rightarrow> 'j AppState" where
  "handleCustomizationUpdate viz s = pushToStack viz s"

definition loadFromHistory :: "'j HistoryItem \<Rightarrow> 'j AppState \<Rightarrow> 'j AppState" where
  "loadFromHistory item s =
     showToast (js ''Loaded from history'') ToastSuccess
       (s\<lparr>promptInput := [], vizStack := [VizResponse.truncate item], stackIndex := 0,
          showCode := False, showSettings := False\<rparr>)"

definition promptDelete :: "jsstring \<Rightarrow> 'j AppState \<Rightarrow> 'j AppState" where
  "promptDelete i s = s\<lparr>deleteId := Some i\<rparr>"

text \<open>\<open>if (!deleteId) return;\<close> also stops on the empty string.\<close>

definition confirmDelete :: "'j AppState \<Rightarrow> 'j AppState" where
  "confirmDelete s =
     (case deleteId s of
        None \<Rightarrow> s
      | Some d \<Rightarrow>
          if d = [] then s
          else
            let newHistory = filter (\<lambda>h. viz_id h \<noteq> Some d) (history s);
                s1 = s\<lparr>history := newHistory\<rparr>;
                s2 = (if (case currentViz s of None \<Rightarrow> None | Some cur \<Rightarrow> viz_id cur) = Some d
                      then handleNewViz s1 else s1)
            in showToast (js ''Visualization deleted'') ToastSuccess (s2\<lparr>deleteId := None\<rparr>))"

subsection \<open>The session operations as one step function\<close>

datatype 'j Action =
    Generate jsstring
  | Refine jsstring
  | Submit
  | Regenerate
  | EditSource
  | Customize "'j VizResponse"
  | Undo
  | Redo
  | Reset
  | LoadFromHistory "'j HistoryItem"
  | PromptDelete jsstring
  | ConfirmDelete
  | TypeCode jsstring
  | TypePrompt jsstring

fun step ::
  "(jsstring \<Rightarrow> 'j VizResponse option \<Rightarrow> jsstring + 'j VizResponse) \<Rightarrow>
   (jsstring \<Rightarrow> jsstring + 'j) \<Rightarrow> nat \<Rightarrow> nat \<Rightarrow> 'j Action \<Rightarrow> 'j AppState \<Rightarrow> 'j AppState" where
  "step gen parse now1 now2 (Generate p) s = processPrompt gen now1 now2 p False s"
| "step gen parse now1 now2 (Refine p) s = processPrompt gen now1 now2 p True s"
| "step gen parse now1 now2 Submit s = handleSubmit gen now1 now2 s"
| "step gen parse now1 now2 Regenerate s = handleRegenerate gen now1 now2 s"
| "step gen parse now1 now2 EditSource s = handleUpdateVizFromCode parse s"
| "step gen parse now1 now2 (Customize viz) s = handleCustomizationUpdate viz s"
| "step gen parse now1 now2 Undo s = handleUndo s"
| "step gen parse now1 now2 Redo s = handleRedo s"
| "step gen parse now1 now2 Reset s = handleNewViz s"
| "step gen parse now1 now2 (LoadFromHistory item) s = loadFromHistory item s"
| "step gen parse now1 now2 (PromptDelete i) s = promptDelete i s"
| "step gen parse now1 now2 ConfirmDelete s = confirmDelete s"
| "step gen parse now1 now2 (TypeCode text) s = s\<lparr>editableCode := text\<rparr>"
| "step gen parse now1 now2 (TypePrompt text) s = s\<lparr>promptInput := text\<rparr>"

text \<open>The invariant of the version stack.\<close>

definition stack_inv :: "'j AppState \<Rightarrow> bool" where
  "stack_inv s \<longleftrightarrow>
     - 1 \<le> stackIndex s \<and> stackIndex s \<le> int (length (vizStack s)) - 1 \<and>
     ((stackIndex s = - 1) = (vizStack s = []))"

subsection \<open>Example values\<close>

definition exampleViz :: "jsstring \<Rightarrow> unit VizResponse" where
  "exampleViz t =
     \<lparr> viz_id = Some t, visualizationType = Mermaid, title = t, explanation = [],
       originalPrompt = None, mermaidCode = Some (js ''flowchart TD''), mermaidTheme = None,
       svgCode = None, rechartsConfig = None \<rparr>"

definition exampleChart :: "unit VizResponse" where
  "exampleChart =
     \<lparr> viz_id = Some (js ''c''), visualizationType = Recharts, title = js ''chart'', explanation = [],
       originalPrompt = None, mermaidCode = None, mermaidTheme = None,
       svgCode = None, rechartsConfig = Some () \<rparr>"

definition exampleItem :: "jsstring \<Rightarrow> unit HistoryItem" where
  "exampleItem t = VizResponse.extend (exampleViz t) (HistoryItem.fields t 0)"

definition exampleState :: "unit VizResponse list \<Rightarrow> int \<Rightarrow> unit AppState" where
  "exampleState stack i = initialState\<lparr>vizStack := stack, stackIndex := i\<rparr>"


section \<open>The version stack and the history store\<close>

lemma slice0_nonneg: "0 \<le> e \<Longrightarrow> slice0 xs e = take (nat e) xs"
  by (simp add: slice0_def)

lemma pushToStack_stack:
  "- 1 \<le> stackIndex s \<Longrightarrow>
   vizStack (pushToStack viz s) = take (nat (stackIndex s + 1)) (vizStack s) @ [viz]"
  by (simp add: pushToStack_def Let_def slice0_def)

lemma pushToStack_index:
  "- 1 \<le> stackIndex s \<Longrightarrow> stackIndex s < int (length (vizStack s)) \<Longrightarrow>
   stackIndex (pushToStack viz s) = stackIndex s + 1"
  by (auto simp add: pushToStack_def Let_def slice0_def min_def)

lemma pushToStack_index_last:
  "stackIndex (pushToStack viz s) = int (length (vizStack (pushToStack viz s))) - 1"
  by (simp add: pushToStack_def Let_def)

lemma pushToStack_nonempty: "vizStack (pushToStack viz s) \<noteq> []"
  by (simp add: pushToStack_def Let_def)

lemma stack_inv_pushToStack: "stack_inv (pushToStack viz s)"
  unfolding stack_inv_def using pushToStack_index_last [of viz s] pushToStack_nonempty [of viz s]
  by (cases "vizStack (pushToStack viz s)") auto

lemma stack_inv_showToast [simp]: "stack_inv (showToast m t s) = stack_inv s"
  by (simp add: stack_inv_def showToast_def)

lemma stack_inv_processPrompt:
  "stack_inv s \<Longrightarrow> stack_inv (processPrompt gen now1 now2 p r s)"
proof -
  assume inv: "stack_inv s"
  have single: "\<And>v (t :: 'a AppState). stack_inv (t\<lparr>vizStack := [v], stackIndex := 0\<rparr>)"
    by (simp add: stack_inv_def)
  have other: "\<And>(t :: 'a AppState) a b c d. stack_inv (t\<lparr>status := a, showCode := b, showSettings := c, showSuggestions := d\<rparr>) = stack_inv t"
    by (simp add: stack_inv_def)
  show ?thesis
    using inv
    by (auto simp add: processPrompt_def Let_def stack_inv_def showToast_def
        pushToStack_def slice0_def split: sum.splits)
qed

lemma stack_inv_handleNewViz: "stack_inv (handleNewViz s)"
  by (simp add: stack_inv_def handleNewViz_def)

text \<open>
  Claim C8. Every session operation (generate, refine, edit of the source, customize,
  undo, redo, reset, load from the history, delete, and the others of \<open>step\<close>)
  preserves the invariant of the version stack: the current index lies between \<open>-1\<close>
  and \<open>length - 1\<close>, and it is \<open>-1\<close> exactly when the stack is empty. The initial
  state satisfies it.
\<close>

theorem step_preserves_stack_inv:
  "stack_inv (initialState :: 'j AppState) \<and>
   (stack_inv s \<longrightarrow> stack_inv (step gen parse now1 now2 a s))"
proof
  show "stack_inv (initialState :: 'j AppState)"
    by (simp add: stack_inv_def initialState_def)
  show "stack_inv s \<longrightarrow> stack_inv (step gen parse now1 now2 a s)"
  proof
    assume inv: "stack_inv s"
    show "stack_inv (step gen parse now1 now2 a s)"
    proof (cases a)
      case (Generate p) then show ?thesis using inv by (simp add: stack_inv_processPrompt)
    next
      case (Refine p) then show ?thesis using inv by (simp add: stack_inv_processPrompt)
    next
      case Submit then show ?thesis using inv by (simp add: handleSubmit_def stack_inv_processPrompt)
    next
      case Regenerate then show ?thesis using inv
        by (simp add: handleRegenerate_def stack_inv_processPrompt split: option.splits)
    next
      case EditSource then show ?thesis using inv
        by (auto simp add: handleUpdateVizFromCode_def stack_inv_pushToStack split: option.splits sum.splits)
    next
      case (Customize v) then show ?thesis
        by (simp add: handleCustomizationUpdate_def stack_inv_pushToStack)
    next
      case Undo then show ?thesis using inv
        by (auto simp add: handleUndo_def stack_inv_def showToast_def)
    next
      case Redo then show ?thesis using inv
        by (auto simp add: handleRedo_def stack_inv_def showToast_def)
    next
      case Reset then show ?thesis by (simp add: stack_inv_handleNewViz)
    next
      case (LoadFromHistory item) then show ?thesis
        by (simp add: loadFromHistory_def stack_inv_def showToast_def)
    next
      case (PromptDelete i) then show ?thesis using inv
        by (simp add: promptDelete_def stack_inv_def)
    next
      case ConfirmDelete then show ?thesis using inv
        by (auto simp add: confirmDelete_def Let_def stack_inv_def handleNewViz_def showToast_def
            split: option.splits)
    next
      case (TypeCode t) then show ?thesis using inv by (simp add: stack_inv_def)
    next
      case (TypePrompt t) then show ?thesis using inv by (simp add: stack_inv_def)
    qed
  qed
qed


text \<open>
  A witness of C8: deleting the displayed entry (which resets the session) keeps the
  invariant.
\<close>

theorem step_preserves_stack_inv_witness:
  "stack_inv (exampleState [exampleViz (js ''A''), exampleViz (js ''B'')] 1) \<and>
   stack_inv (step (\<lambda>p c. Inl []) (\<lambda>t. Inl []) 7 8 ConfirmDelete
     ((exampleState [exampleViz (js ''A''), exampleViz (js ''B'')] 1)\<lparr>deleteId := Some (js ''B'')\<rparr>)) \<and>
   vizStack (step (\<lambda>p c. Inl []) (\<lambda>t. Inl []) 7 8 ConfirmDelete
     ((exampleState [exampleViz (js ''A''), exampleViz (js ''B'')] 1)\<lparr>deleteId := Some (js ''B'')\<rparr>)) = []"
  using step_preserves_stack_inv
    [of "(exampleState [exampleViz (js ''A''), exampleViz (js ''B'')] 1)\<lparr>deleteId := Some (js ''B'')\<rparr>"
        "\<lambda>p c. Inl []" "\<lambda>t. Inl []" 7 8 ConfirmDelete]
  by (simp add: stack_inv_def exampleState_def initialState_def confirmDelete_def currentViz_def
      exampleViz_def js_def handleNewViz_def showToast_def)

text \<open>
  Claim C1 as stated fails at the first entry: with two entries and the index at 0,
  undo does nothing (its guard is \<open>stackIndex > 0\<close>) and redo then moves to index 1.
\<close>

theorem undo_redo_at_first_entry_counterexample:
  "0 \<le> stackIndex (exampleState [exampleViz (js ''A''), exampleViz (js ''B'')] 0) \<and>
   stackIndex (exampleState [exampleViz (js ''A''), exampleViz (js ''B'')] 0)
     < int (length (vizStack (exampleState [exampleViz (js ''A''), exampleViz (js ''B'')] 0))) \<and>
   stackIndex (handleRedo (handleUndo (exampleState [exampleViz (js ''A''), exampleViz (js ''B'')] 0))) = 1 \<and>
   currentViz (handleRedo (handleUndo (exampleState [exampleViz (js ''A''), exampleViz (js ''B'')] 0)))
     \<noteq> currentViz (exampleState [exampleViz (js ''A''), exampleViz (js ''B'')] 0)"
  by (simp add: exampleState_def initialState_def handleUndo_def handleRedo_def showToast_def
      currentViz_def exampleViz_def js_def)

text \<open>
  Claim C1, amended. For a version stack of length N with current index i, where
  \<open>0 < i < N\<close> (or \<open>i = 0\<close> and \<open>N = 1\<close>), undo followed by redo restores the index
  to i, leaves the stack as it was, and so leaves the entry at the current index
  identical to what it was before the undo.
\<close>

theorem undo_redo_restores:
  assumes "0 \<le> stackIndex s" and "stackIndex s < int (length (vizStack s))"
    and "0 < stackIndex s \<or> length (vizStack s) = 1"
  shows "stackIndex (handleRedo (handleUndo s)) = stackIndex s \<and>
         vizStack (handleRedo (handleUndo s)) = vizStack s \<and>
         currentViz (handleRedo (handleUndo s)) = currentViz s"
  using assms by (auto simp add: handleUndo_def handleRedo_def showToast_def currentViz_def)

text \<open>A witness of C1 (amended): two entries, the index at the second.\<close>

theorem undo_redo_restores_witness:
  "stackIndex (handleRedo (handleUndo (exampleState [exampleViz (js ''A''), exampleViz (js ''B'')] 1))) = 1 \<and>
   vizStack (handleRedo (handleUndo (exampleState [exampleViz (js ''A''), exampleViz (js ''B'')] 1)))
     = [exampleViz (js ''A''), exampleViz (js ''B'')] \<and>
   currentViz (handleRedo (handleUndo (exampleState [exampleViz (js ''A''), exampleViz (js ''B'')] 1)))
     = Some (exampleViz (js ''B''))"
  using undo_redo_restores [of "exampleState [exampleViz (js ''A''), exampleViz (js ''B'')] 1"]
  by (simp add: exampleState_def currentViz_def)


text \<open>
  Claim C4. For a stack of length N and current index i (\<open>-1 \<le> i < N\<close>), a forward
  write through \<open>pushToStack\<close>, and so a successful refine, first discards all entries
  with index greater than i, then appends the new entry, and sets the index to the
  new last position: the resulting stack has length \<open>i + 2\<close> and the new entry is at
  index \<open>i + 1\<close>.
\<close>

theorem forward_write_discards_redo_entries:
  assumes "- 1 \<le> stackIndex s" and "stackIndex s < int (length (vizStack s))"
  shows "vizStack (pushToStack viz s) = take (nat (stackIndex s + 1)) (vizStack s) @ [viz] \<and>
         int (length (vizStack (pushToStack viz s))) = stackIndex s + 2 \<and>
         stackIndex (pushToStack viz s) = stackIndex s + 1 \<and>
         vizStack (pushToStack viz s) ! nat (stackIndex s + 1) = viz \<and>
         (trim promptText \<noteq> [] \<and> gen promptText (currentViz s) = Inr response \<and>
          visualizationType response \<in> {Mermaid, Recharts, Svg} \<longrightarrow>
            vizStack (processPrompt gen now1 now2 promptText True s) =
              take (nat (stackIndex s + 1)) (vizStack s) @
                [response\<lparr>viz_id := Some (toString_nat now1), originalPrompt := Some promptText\<rparr>] \<and>
            stackIndex (processPrompt gen now1 now2 promptText True s) = stackIndex s + 1)"
proof -
  have stack: "vizStack (pushToStack viz s) = take (nat (stackIndex s + 1)) (vizStack s) @ [viz]"
    using assms by (simp add: pushToStack_stack)
  have len: "int (length (vizStack (pushToStack viz s))) = stackIndex s + 2"
    using assms by (auto simp add: stack min_def)
  have idx: "stackIndex (pushToStack viz s) = stackIndex s + 1"
    using assms by (simp add: pushToStack_index)
  have nth: "vizStack (pushToStack viz s) ! nat (stackIndex s + 1) = viz"
    using assms by (auto simp add: stack nth_append min_def)
  have refine: "vizStack (processPrompt gen now1 now2 promptText True s) =
              take (nat (stackIndex s + 1)) (vizStack s) @
                [response\<lparr>viz_id := Some (toString_nat now1), originalPrompt := Some promptText\<rparr>] \<and>
            stackIndex (processPrompt gen now1 now2 promptText True s) = stackIndex s + 1"
    if "trim promptText \<noteq> []" "gen promptText (currentViz s) = Inr response"
       "visualizationType response \<in> {Mermaid, Recharts, Svg}"
  proof (cases "currentViz s")
    case None
    then have "stackIndex s = - 1" using assms by (auto simp add: currentViz_def split: if_splits)
    then show ?thesis using that None
      by (auto simp add: processPrompt_def Let_def showToast_def)
  next
    case (Some cur)
    then show ?thesis using that assms
      by (auto simp add: processPrompt_def Let_def showToast_def pushToStack_def slice0_def min_def)
  qed
  show ?thesis using stack len idx nth refine by blast
qed

text \<open>A witness of C4: a write after one undo drops the entry that redo would restore.\<close>

theorem forward_write_discards_redo_entries_witness:
  "vizStack (pushToStack (exampleViz (js ''C''))
      (exampleState [exampleViz (js ''A''), exampleViz (js ''B'')] 0))
     = [exampleViz (js ''A''), exampleViz (js ''C'')] \<and>
   stackIndex (pushToStack (exampleViz (js ''C''))
      (exampleState [exampleViz (js ''A''), exampleViz (js ''B'')] 0)) = 1 \<and>
   vizStack (processPrompt (\<lambda>p c. Inr (exampleViz (js ''C''))) 7 8 (js ''more'') True
      (exampleState [exampleViz (js ''A''), exampleViz (js ''B'')] 0))
     = [exampleViz (js ''A''),
        (exampleViz (js ''C''))\<lparr>viz_id := Some (js ''7''), originalPrompt := Some (js ''more'')\<rparr>] \<and>
   stackIndex (processPrompt (\<lambda>p c. Inr (exampleViz (js ''C''))) 7 8 (js ''more'') True
      (exampleState [exampleViz (js ''A''), exampleViz (js ''B'')] 0)) = 1"
  using forward_write_discards_redo_entries
    [of "exampleState [exampleViz (js ''A''), exampleViz (js ''B'')] 0" "exampleViz (js ''C'')"
        "js ''more''" "\<lambda>p c. Inr (exampleViz (js ''C''))" "exampleViz (js ''C'')" 7 8]
  by (simp add: exampleState_def initialState_def exampleViz_def js_def trim_def is_white_space_def
      toString_nat.simps)


text \<open>
  Claim C3. When the generation call throws, and when the manual edit of a chart fails
  validation (\<open>JSON.parse\<close> throws), the version stack and the current index are
  unchanged, the previously displayed entry remains the current one, and an error
  toast with a message is shown.
\<close>

theorem failure_leaves_stack_unchanged:
  "(trim promptText \<noteq> [] \<and>
    gen promptText (if isRefinement then currentViz s else None) = Inl message \<longrightarrow>
      vizStack (processPrompt gen now1 now2 promptText isRefinement s) = vizStack s \<and>
      stackIndex (processPrompt gen now1 now2 promptText isRefinement s) = stackIndex s \<and>
      currentViz (processPrompt gen now1 now2 promptText isRefinement s) = currentViz s \<and>
      toast (processPrompt gen now1 now2 promptText isRefinement s) =
        Some (if message = [] then js ''Failed to generate visualization'' else message,
              ToastError)) \<and>
   (currentViz s = Some cur \<and> visualizationType cur = Recharts \<and>
    JSON_parse (editableCode s) = Inl message' \<longrightarrow>
      vizStack (handleUpdateVizFromCode JSON_parse s) = vizStack s \<and>
      stackIndex (handleUpdateVizFromCode JSON_parse s) = stackIndex s \<and>
      currentViz (handleUpdateVizFromCode JSON_parse s) = currentViz s \<and>
      toast (handleUpdateVizFromCode JSON_parse s) =
        Some (js ''Invalid syntax: '' @ message', ToastError))"
  by (auto simp add: processPrompt_def handleUpdateVizFromCode_def Let_def showToast_def
      currentViz_def)

text \<open>A witness of C3: a refine that fails and a chart edit that does not parse.\<close>

theorem failure_leaves_stack_unchanged_witness:
  "vizStack (processPrompt (\<lambda>p c. Inl (js ''Network Error'')) 7 8 (js ''more'') True
      (exampleState [exampleViz (js ''A''), exampleChart] 1)) = [exampleViz (js ''A''), exampleChart] \<and>
   stackIndex (processPrompt (\<lambda>p c. Inl (js ''Network Error'')) 7 8 (js ''more'') True
      (exampleState [exampleViz (js ''A''), exampleChart] 1)) = 1 \<and>
   toast (processPrompt (\<lambda>p c. Inl (js ''Network Error'')) 7 8 (js ''more'') True
      (exampleState [exampleViz (js ''A''), exampleChart] 1)) = Some (js ''Network Error'', ToastError) \<and>
   vizStack (handleUpdateVizFromCode (\<lambda>t. Inl (js ''Unexpected token''))
      (exampleState [exampleViz (js ''A''), exampleChart] 1)) = [exampleViz (js ''A''), exampleChart] \<and>
   stackIndex (handleUpdateVizFromCode (\<lambda>t. Inl (js ''Unexpected token''))
      (exampleState [exampleViz (js ''A''), exampleChart] 1)) = 1 \<and>
   toast (handleUpdateVizFromCode (\<lambda>t. Inl (js ''Unexpected token''))
      (exampleState [exampleViz (js ''A''), exampleChart] 1))
     = Some (js ''Invalid syntax: Unexpected token'', ToastError)"
  using failure_leaves_stack_unchanged
    [of "js ''more''" "\<lambda>p c. Inl (js ''Network Error'')" True
        "exampleState [exampleViz (js ''A''), exampleChart] 1" "js ''Network Error'' " 7 8
        exampleChart "\<lambda>t. Inl (js ''Unexpected token'')" "js ''Unexpected token''"]
  by (simp add: exampleState_def initialState_def exampleChart_def currentViz_def js_def trim_def
      is_white_space_def)

text \<open>
  Claim C10. When the active entry is a mermaid or an svg entry, the manual edit never
  fails: whatever the text (empty or not a diagram at all), it is accepted without
  validation and a new entry is appended whose content field is the text verbatim;
  an error toast of this operation can only come from a recharts entry.
\<close>

theorem edit_of_mermaid_or_svg_is_accepted:
  "(currentViz s = Some cur \<and> visualizationType cur = Mermaid \<longrightarrow>
      vizStack (handleUpdateVizFromCode JSON_parse s) =
        take (nat (stackIndex s + 1)) (vizStack s) @ [cur\<lparr>mermaidCode := Some (editableCode s)\<rparr>] \<and>
      stackIndex (handleUpdateVizFromCode JSON_parse s) = stackIndex s + 1 \<and>
      currentViz (handleUpdateVizFromCode JSON_parse s) =
        Some (cur\<lparr>mermaidCode := Some (editableCode s)\<rparr>) \<and>
      toast (handleUpdateVizFromCode JSON_parse s) =
        Some (js ''Visualization updated from code'', ToastSuccess)) \<and>
   (currentViz s = Some cur \<and> visualizationType cur = Svg \<longrightarrow>
      vizStack (handleUpdateVizFromCode JSON_parse s) =
        take (nat (stackIndex s + 1)) (vizStack s) @ [cur\<lparr>svgCode := Some (editableCode s)\<rparr>] \<and>
      stackIndex (handleUpdateVizFromCode JSON_parse s) = stackIndex s + 1 \<and>
      currentViz (handleUpdateVizFromCode JSON_parse s) =
        Some (cur\<lparr>svgCode := Some (editableCode s)\<rparr>) \<and>
      toast (handleUpdateVizFromCode JSON_parse s) =
        Some (js ''Visualization updated from code'', ToastSuccess)) \<and>
   (currentViz s = Some cur \<and>
    toast (handleUpdateVizFromCode JSON_parse s) = Some (message, ToastError) \<longrightarrow>
      visualizationType cur = Recharts)"
proof -
  have push: "vizStack (pushToStack v s) = take (nat (stackIndex s + 1)) (vizStack s) @ [v] \<and>
              stackIndex (pushToStack v s) = stackIndex s + 1 \<and>
              currentViz (pushToStack v s) = Some v"
    if "currentViz s = Some cur" for v
  proof -
    from that have r: "0 \<le> stackIndex s" "stackIndex s < int (length (vizStack s))"
      by (auto simp add: currentViz_def split: if_splits)
    then show ?thesis
      by (auto simp add: pushToStack_def Let_def slice0_def min_def currentViz_def nth_append)
  qed
  have toast_keep: "toast (showToast m t x) = Some (m, t)"
    "vizStack (showToast m t x) = vizStack x" "stackIndex (showToast m t x) = stackIndex x"
    "currentViz (showToast m t x) = currentViz x" for m t and x :: "'a AppState"
    by (simp_all add: showToast_def currentViz_def)
  have mermaid: "handleUpdateVizFromCode JSON_parse s =
      showToast (js ''Visualization updated from code'') ToastSuccess
        (pushToStack (cur\<lparr>mermaidCode := Some (editableCode s)\<rparr>) s)"
    if "currentViz s = Some cur" "visualizationType cur = Mermaid"
    using that by (simp add: handleUpdateVizFromCode_def)
  have svg: "handleUpdateVizFromCode JSON_parse s =
      showToast (js ''Visualization updated from code'') ToastSuccess
        (pushToStack (cur\<lparr>svgCode := Some (editableCode s)\<rparr>) s)"
    if "currentViz s = Some cur" "visualizationType cur = Svg"
    using that by (simp add: handleUpdateVizFromCode_def)
  have err: "visualizationType cur = Recharts"
    if "currentViz s = Some cur"
       "toast (handleUpdateVizFromCode JSON_parse s) = Some (message, ToastError)"
    using that
    by (cases "visualizationType cur")
       (auto simp add: handleUpdateVizFromCode_def showToast_def split: sum.splits)
  show ?thesis
  proof (intro conjI impI)
    assume a: "currentViz s = Some cur \<and> visualizationType cur = Mermaid"
    then have e: "handleUpdateVizFromCode JSON_parse s =
      showToast (js ''Visualization updated from code'') ToastSuccess
        (pushToStack (cur\<lparr>mermaidCode := Some (editableCode s)\<rparr>) s)"
      using mermaid by blast
    from a push [of "cur\<lparr>mermaidCode := Some (editableCode s)\<rparr>"]
    show "vizStack (handleUpdateVizFromCode JSON_parse s) =
        take (nat (stackIndex s + 1)) (vizStack s) @ [cur\<lparr>mermaidCode := Some (editableCode s)\<rparr>]"
      "stackIndex (handleUpdateVizFromCode JSON_parse s) = stackIndex s + 1"
      "currentViz (handleUpdateVizFromCode JSON_parse s) =
        Some (cur\<lparr>mermaidCode := Some (editableCode s)\<rparr>)"
      "toast (handleUpdateVizFromCode JSON_parse s) =
        Some (js ''Visualization updated from code'', ToastSuccess)"
      by (simp_all only: e toast_keep)
  next
    assume a: "currentViz s = Some cur \<and> visualizationType cur = Svg"
    then have e: "handleUpdateVizFromCode JSON_parse s =
      showToast (js ''Visualization updated from code'') ToastSuccess
        (pushToStack (cur\<lparr>svgCode := Some (editableCode s)\<rparr>) s)"
      using svg by blast
    from a push [of "cur\<lparr>svgCode := Some (editableCode s)\<rparr>"]
    show "vizStack (handleUpdateVizFromCode JSON_parse s) =
        take (nat (stackIndex s + 1)) (vizStack s) @ [cur\<lparr>svgCode := Some (editableCode s)\<rparr>]"
      "stackIndex (handleUpdateVizFromCode JSON_parse s) = stackIndex s + 1"
      "currentViz (handleUpdateVizFromCode JSON_parse s) =
        Some (cur\<lparr>svgCode := Some (editableCode s)\<rparr>)"
      "toast (handleUpdateVizFromCode JSON_parse s) =
        Some (js ''Visualization updated from code'', ToastSuccess)"
      by (simp_all only: e toast_keep)
  next
    assume "currentViz s = Some cur \<and>
      toast (handleUpdateVizFromCode JSON_parse s) = Some (message, ToastError)"
    then show "visualizationType cur = Recharts" using err by blast
  qed
qed

text \<open>A witness of C10: the empty text is accepted as the source of a mermaid entry.\<close>

theorem edit_of_mermaid_or_svg_is_accepted_witness:
  "vizStack (handleUpdateVizFromCode (\<lambda>t. Inl (js ''Unexpected token''))
      ((exampleState [exampleViz (js ''A''), exampleViz (js ''B'')] 0)\<lparr>editableCode := []\<rparr>))
     = [exampleViz (js ''A''), (exampleViz (js ''A''))\<lparr>mermaidCode := Some []\<rparr>] \<and>
   stackIndex (handleUpdateVizFromCode (\<lambda>t. Inl (js ''Unexpected token''))
      ((exampleState [exampleViz (js ''A''), exampleViz (js ''B'')] 0)\<lparr>editableCode := []\<rparr>)) = 1 \<and>
   toast (handleUpdateVizFromCode (\<lambda>t. Inl (js ''Unexpected token''))
      ((exampleState [exampleViz (js ''A''), exampleViz (js ''B'')] 0)\<lparr>editableCode := []\<rparr>))
     = Some (js ''Visualization updated from code'', ToastSuccess)"
  using edit_of_mermaid_or_svg_is_accepted
    [of "(exampleState [exampleViz (js ''A''), exampleViz (js ''B'')] 0)\<lparr>editableCode := []\<rparr>"
        "exampleViz (js ''A'')" "\<lambda>t. Inl (js ''Unexpected token'')"]
  by (simp add: exampleState_def initialState_def exampleViz_def currentViz_def)


subsection \<open>The history store\<close>

lemma historyUpdater_eq: "historyUpdater item prev = item # take 4 prev"
  by (simp add: historyUpdater_def slice0_def)

lemma history_processPrompt_le:
  "length (history s) \<le> 5 \<Longrightarrow> length (history (processPrompt gen now1 now2 p r s)) \<le> 5"
  by (auto simp add: processPrompt_def Let_def showToast_def pushToStack_def historyUpdater_eq
      split: sum.splits)

lemma history_step_le:
  "length (history s) \<le> 5 \<Longrightarrow> length (history (step gen parse now1 now2 a s)) \<le> 5"
proof (cases a)
  case ConfirmDelete
  assume h: "length (history s) \<le> 5"
  moreover have "length (filter P (history s)) \<le> length (history s)" for P by simp
  ultimately have "length (filter P (history s)) \<le> 5" for P using le_trans by blast
  then show ?thesis using ConfirmDelete h
    by (auto simp add: confirmDelete_def Let_def showToast_def handleNewViz_def split: option.splits)
next
  case EditSource
  assume "length (history s) \<le> 5"
  then show ?thesis using EditSource
    by (auto simp add: handleUpdateVizFromCode_def showToast_def pushToStack_def Let_def
        split: option.splits sum.splits)
qed (auto simp add: history_processPrompt_le handleSubmit_def handleRegenerate_def
      handleCustomizationUpdate_def pushToStack_def Let_def handleUndo_def handleRedo_def
      showToast_def handleNewViz_def loadFromHistory_def promptDelete_def split: option.splits)

text \<open>
  Claim C7. The history never holds more than 5 entries: an insertion puts the new
  entry first and keeps at most 5 entries, so that from a list of 5 the oldest (last)
  entry is evicted; a successful \<open>processPrompt\<close> inserts in this way; no operation
  makes a history of at most 5 entries longer than 5; and what is persisted has at most
  5 entries.
\<close>

theorem history_holds_at_most_five:
  "length (historyUpdater item prev) \<le> 5 \<and>
   hd (historyUpdater item prev) = item \<and>
   (length prev = 5 \<longrightarrow> historyUpdater item prev = item # butlast prev) \<and>
   (length prev < 5 \<longrightarrow> historyUpdater item prev = item # prev) \<and>
   (trim promptText \<noteq> [] \<and>
    gen promptText (if isRefinement then currentViz s else None) = Inr response \<and>
    visualizationType response \<in> {Mermaid, Recharts, Svg} \<longrightarrow>
      history (processPrompt gen now1 now2 promptText isRefinement s) =
        historyUpdater
          (VizResponse.extend
             (response\<lparr>viz_id := Some (toString_nat now1), originalPrompt := Some promptText\<rparr>)
             (HistoryItem.fields promptText now2))
          (history s)) \<and>
   length (history (initialState :: 'j AppState)) \<le> 5 \<and>
   (length (history s) \<le> 5 \<longrightarrow> length (history (step gen parse now1 now2 a s)) \<le> 5) \<and>
   length (persistedHistory s) \<le> 5"
proof -
  have evict: "historyUpdater item prev = item # butlast prev" if "length prev = 5"
    using that by (simp add: historyUpdater_eq butlast_conv_take)
  have success: "history (processPrompt gen now1 now2 promptText isRefinement s) =
        historyUpdater
          (VizResponse.extend
             (response\<lparr>viz_id := Some (toString_nat now1), originalPrompt := Some promptText\<rparr>)
             (HistoryItem.fields promptText now2))
          (history s)"
    if "trim promptText \<noteq> []"
       "gen promptText (if isRefinement then currentViz s else None) = Inr response"
       "visualizationType response \<in> {Mermaid, Recharts, Svg}"
    using that
    by (auto simp add: processPrompt_def Let_def showToast_def pushToStack_def)
  show ?thesis
    using evict success history_step_le [of s gen parse now1 now2 a]
    by (simp add: historyUpdater_eq initialState_def persistedHistory_def slice0_def)
qed

text \<open>A witness of C7: the sixth entry evicts the oldest one.\<close>

theorem history_holds_at_most_five_witness:
  "historyUpdater (exampleItem (js ''F''))
     [exampleItem (js ''E''), exampleItem (js ''D''), exampleItem (js ''C''),
      exampleItem (js ''B''), exampleItem (js ''A'')]
   = [exampleItem (js ''F''), exampleItem (js ''E''), exampleItem (js ''D''),
      exampleItem (js ''C''), exampleItem (js ''B'')] \<and>
   history (processPrompt (\<lambda>p c. Inr (exampleViz (js ''F''))) 7 8 (js ''more'') False
      ((exampleState [] (- 1))\<lparr>history :=
         [exampleItem (js ''E''), exampleItem (js ''D''), exampleItem (js ''C''),
          exampleItem (js ''B''), exampleItem (js ''A'')]\<rparr>))
   = [VizResponse.extend
        ((exampleViz (js ''F''))\<lparr>viz_id := Some (js ''7''), originalPrompt := Some (js ''more'')\<rparr>)
        (HistoryItem.fields (js ''more'') 8),
      exampleItem (js ''E''), exampleItem (js ''D''), exampleItem (js ''C''),
      exampleItem (js ''B'')]"
  using history_holds_at_most_five
    [of "exampleItem (js ''F'')"
        "[exampleItem (js ''E''), exampleItem (js ''D''), exampleItem (js ''C''),
          exampleItem (js ''B''), exampleItem (js ''A'')]"
        "js ''more''" "\<lambda>p c. Inr (exampleViz (js ''F''))" False
        "(exampleState [] (- 1))\<lparr>history :=
         [exampleItem (js ''E''), exampleItem (js ''D''), exampleItem (js ''C''),
          exampleItem (js ''B''), exampleItem (js ''A'')]\<rparr>"
        "exampleViz (js ''F'')" 7 8]
  by (simp add: exampleState_def initialState_def exampleViz_def js_def trim_def is_white_space_def
      toString_nat.simps historyUpdater_eq)

section \<open>The normalizer: lemmas and theorems\<close>



subsection \<open>Lines\<close>

lemma split_lines_nonempty [simp]: "split_lines s \<noteq> []"
  by (induction s) auto

lemma join_split_lines: "join_lines (split_lines s) = s"
proof (induction s)
  case Nil
  then show ?case by simp
next
  case (Cons c cs)
  obtain l ls where e: "split_lines cs = l # ls"
    by (cases "split_lines cs") auto
  show ?case
  proof (cases "c = LF")
    case True
    then show ?thesis using Cons e by simp
  next
    case False
    then show ?thesis using Cons e by (cases ls) auto
  qed
qed

lemma split_lines_no_LF: "l \<in> set (split_lines s) \<Longrightarrow> LF \<notin> set l"
proof (induction s arbitrary: l)
  case Nil
  then show ?case by simp
next
  case (Cons c cs)
  obtain l0 ls where e: "split_lines cs = l0 # ls"
    by (cases "split_lines cs") auto
  then have "l0 \<in> set (split_lines cs)" "set ls \<subseteq> set (split_lines cs)" by auto
  then show ?case using Cons e by (auto split: if_splits)
qed

lemma split_lines_append_LF:
  "LF \<notin> set l \<Longrightarrow> split_lines (l @ LF # s) = l # split_lines s"
  by (induction l) auto

lemma split_lines_single: "LF \<notin> set l \<Longrightarrow> split_lines l = [l]"
  by (induction l) auto

lemma split_join_lines:
  "ls \<noteq> [] \<Longrightarrow> (\<And>l. l \<in> set ls \<Longrightarrow> LF \<notin> set l) \<Longrightarrow> split_lines (join_lines ls) = ls"
proof (induction ls rule: join_lines.induct)
  case 1
  then show ?case by simp
next
  case (2 l)
  then show ?case by (simp add: split_lines_single)
next
  case (3 l v va)
  then show ?case by (simp add: split_lines_append_LF)
qed

subsection \<open>Global replacement\<close>

lemma replace_global_no_match:
  "(\<And>t. suffix t s \<Longrightarrow> t \<noteq> [] \<Longrightarrow> m t = None) \<Longrightarrow> replace_global m s = s"
proof (induction s)
  case Nil
  then show ?case by simp
next
  case (Cons c cs)
  have "m (c # cs) = None" using Cons.prems by simp
  moreover have "replace_global m cs = cs"
    using Cons.IH Cons.prems by (simp add: suffix_Cons)
  ultimately show ?case by simp
qed

lemma replace_literal_absent:
  "\<not> sublist pat s \<Longrightarrow> replace_global (match_literal pat rep) s = s"
proof (rule replace_global_no_match)
  fix t assume "\<not> sublist pat s" "suffix t s" "t \<noteq> []"
  then have "\<not> prefix pat t"
    by (meson prefix_imp_sublist sublist_order.order.trans suffix_imp_sublist)
  then show "match_literal pat rep t = None" by (simp add: match_literal_def)
qed

lemma trim_id: "s = [] \<or> (\<not> is_white_space (hd s) \<and> \<not> is_white_space (last s)) \<Longrightarrow> trim s = s"
proof (cases s)
  case Nil
  then show ?thesis by (simp add: trim_def)
next
  case (Cons c cs)
  assume "s = [] \<or> (\<not> is_white_space (hd s) \<and> \<not> is_white_space (last s))"
  then have a: "\<not> is_white_space c" "\<not> is_white_space (last s)" using Cons by auto
  have "dropWhile is_white_space s = s" using a Cons by simp
  moreover have "dropWhile is_white_space (rev s) = rev s"
  proof -
    have "s \<noteq> []" using Cons by simp
    then have r: "rev s = last s # rev (butlast s)"
      by (metis append_butlast_last_id rev.simps(2) rev_rev_ident rev_swap)
    have "dropWhile is_white_space (last s # rev (butlast s)) = last s # rev (butlast s)"
      using a by simp
    then show ?thesis unfolding r .
  qed
  ultimately show ?thesis by (simp add: trim_def)
qed


text \<open>Evaluation of \<open>split_lines\<close> on a text given line by line.\<close>

lemma split_lines_two:
  "LF \<notin> set a \<Longrightarrow> LF \<notin> set b \<Longrightarrow> split_lines (a @ [LF] @ b) = [a, b]"
  by (simp add: split_lines_append_LF split_lines_single)

lemma header_of_two:
  "LF \<notin> set a \<Longrightarrow> header_of (a @ [LF] @ b) = trim a"
  by (simp add: header_of_def split_lines_append_LF)



lemma normalize_environment_id:
  assumes "environment_normal code"
  shows "normalize_environment code = code"
proof -
  have a: "\<not> sublist [92, 110] code" "\<not> sublist [13, 10] code" "\<not> sublist [160] code"
    "\<not> sublist [96, 96, 96] code"
    using assms by (simp_all add: environment_normal_def str_includes_def)
  have "sublist [96, 96, 96] ([96, 96, 96] @ js ''mermaid'')"
    by (metis append_Nil2 sublist_append_rightI sublist_order.order.refl prefix_imp_sublist prefixI)
  then have b: "\<not> sublist ([96, 96, 96] @ js ''mermaid'') code"
    using a(4) sublist_order.order.trans by blast
  have t: "trim code = code"
    using assms by (intro trim_id) (simp add: environment_normal_def)
  show ?thesis
    unfolding normalize_environment_def
    by (simp only: replace_literal_absent [OF a(1)] replace_literal_absent [OF a(2)]
        replace_literal_absent [OF a(3)] replace_literal_absent [OF b]
        replace_literal_absent [OF a(4)] t)
qed

lemma replace_literal_length:
  assumes "length rep \<le> length pat"
  shows "length (replace_global (match_literal pat rep) s) \<le> length s"
proof (induction "length s" arbitrary: s rule: less_induct)
  case less
  show ?case
  proof (cases s)
    case Nil
    then show ?thesis by simp
  next
    case (Cons c cs)
    show ?thesis
    proof (cases "prefix pat s")
      case True
      then have l: "length pat \<le> Suc (length cs)" using Cons prefix_length_le by fastforce
      have "length (replace_global (match_literal pat rep) (drop (length pat - 1) cs))
              \<le> length (drop (length pat - 1) cs)"
        using less [of "drop (length pat - 1) cs"] Cons by simp
      then show ?thesis using True Cons assms l by (simp add: match_literal_def)
    next
      case False
      then show ?thesis using less [of cs] Cons by (simp add: match_literal_def)
    qed
  qed
qed

lemma replace_literal_shorter:
  assumes "length rep < length pat"
    and "length (replace_global (match_literal pat rep) s) = length s"
  shows "\<not> sublist pat s"
  using assms(2)
proof (induction s)
  case Nil
  then show ?case using assms(1) by auto
next
  case (Cons c cs)
  show ?case
  proof (cases "prefix pat (c # cs)")
    case True
    then have l: "length pat \<le> Suc (length cs)" using prefix_length_le by fastforce
    have "length (replace_global (match_literal pat rep) (drop (length pat - 1) cs))
            \<le> length (drop (length pat - 1) cs)"
      by (rule replace_literal_length) (use assms(1) in simp)
    then have "length (replace_global (match_literal pat rep) (c # cs)) < length (c # cs)"
      using True assms(1) l by (simp add: match_literal_def)
    then show ?thesis using Cons.prems by simp
  next
    case False
    then have "match_literal pat rep (c # cs) = None" by (simp add: match_literal_def)
    then have "length (replace_global (match_literal pat rep) cs) = length cs"
      using Cons.prems by simp
    then have "\<not> sublist pat cs" by (rule Cons.IH)
    then show ?thesis using False by (simp add: sublist_Cons_right)
  qed
qed

lemma replace_code_unit_fixed:
  assumes "a \<noteq> b" and "replace_global (match_literal [a] [b]) s = s"
  shows "\<not> sublist [a] s"
  using assms(2)
proof (induction s)
  case Nil
  then show ?case by simp
next
  case (Cons c cs)
  then show ?case using assms(1)
    by (cases "c = a") (auto simp add: match_literal_def sublist_Cons_right)
qed

lemma trim_length: "length (trim s) \<le> length s"
proof -
  have "length (trim s) \<le> length (dropWhile is_white_space s)"
    unfolding trim_def by (metis length_dropWhile_le length_rev)
  then show ?thesis using length_dropWhile_le [of is_white_space s] by simp
qed

lemma dropWhile_length_eq:
  "length (dropWhile P s) = length s \<Longrightarrow> s = [] \<or> \<not> P (hd s)"
proof (cases s)
  case Nil
  then show ?thesis by simp
next
  case (Cons c cs)
  assume a: "length (dropWhile P s) = length s"
  show ?thesis
  proof (rule ccontr)
    assume "\<not> (s = [] \<or> \<not> P (hd s))"
    then have "P c" using Cons by simp
    then have "length (dropWhile P s) \<le> length cs"
      using Cons length_dropWhile_le [of P cs] by simp
    then show False using a Cons by simp
  qed
qed

lemma trim_fixed:
  assumes "length (trim s) = length s"
  shows "s = [] \<or> (\<not> is_white_space (hd s) \<and> \<not> is_white_space (last s))"
proof -
  have 1: "length (trim s) \<le> length (dropWhile is_white_space s)"
    unfolding trim_def by (metis length_dropWhile_le length_rev)
  then have e: "length (dropWhile is_white_space s) = length s"
    using assms length_dropWhile_le [of is_white_space s] by simp
  have d: "dropWhile is_white_space s = s"
    using dropWhile_length_eq [OF e] by (cases s) auto
  have "length (dropWhile is_white_space (rev s)) = length (rev s)"
    using assms unfolding trim_def d by simp
  then have "rev s = [] \<or> \<not> is_white_space (hd (rev s))" by (rule dropWhile_length_eq)
  then show ?thesis using dropWhile_length_eq [OF e] by (auto simp add: hd_rev)
qed

lemma normalize_environment_fixed:
  assumes "normalize_environment code = code"
  shows "environment_normal code"
proof -
  define s1 where "s1 = replace_global (match_literal [92, 110] [LF]) code"
  define s2 where "s2 = replace_global (match_literal [13, 10] [LF]) s1"
  define s3 where "s3 = replace_global (match_literal [160] [32]) s2"
  define s4 where "s4 = replace_global (match_literal ([96, 96, 96] @ js ''mermaid'') []) s3"
  define s5 where "s5 = replace_global (match_literal [96, 96, 96] []) s4"
  have t: "trim s5 = code"
    using assms unfolding normalize_environment_def s1_def s2_def s3_def s4_def s5_def .
  have l1: "length s1 \<le> length code" unfolding s1_def by (rule replace_literal_length) simp
  have l2: "length s2 \<le> length s1" unfolding s2_def by (rule replace_literal_length) simp
  have l3: "length s3 \<le> length s2" unfolding s3_def by (rule replace_literal_length) simp
  have l4: "length s4 \<le> length s3" unfolding s4_def by (rule replace_literal_length) simp
  have l5: "length s5 \<le> length s4" unfolding s5_def by (rule replace_literal_length) simp
  have l6: "length code \<le> length s5" using trim_length [of s5] t by simp
  have a1: "\<not> sublist [92, 110] code"
  proof (rule replace_literal_shorter [of "[LF]"])
    show "length [LF] < length [92, 110]" by (simp add: js_def)
    show "length (replace_global (match_literal [92, 110] [LF]) code) = length code"
      unfolding s1_def [symmetric] using l1 l2 l3 l4 l5 l6 by simp
  qed
  then have e1: "s1 = code" unfolding s1_def by (rule replace_literal_absent)
  have a2: "\<not> sublist [13, 10] s1"
  proof (rule replace_literal_shorter [of "[LF]"])
    show "length [LF] < length [13, 10]" by (simp add: js_def)
    show "length (replace_global (match_literal [13, 10] [LF]) s1) = length s1"
      unfolding s2_def [symmetric] using l1 l2 l3 l4 l5 l6 by simp
  qed
  then have e2: "s2 = s1" unfolding s2_def by (rule replace_literal_absent)
  have a4: "\<not> sublist ([96, 96, 96] @ js ''mermaid'') s3"
  proof (rule replace_literal_shorter [of "[]"])
    show "length [] < length ([96, 96, 96] @ js ''mermaid'')" by (simp add: js_def)
    show "length (replace_global (match_literal ([96, 96, 96] @ js ''mermaid'') []) s3) = length s3"
      unfolding s4_def [symmetric] using l1 l2 l3 l4 l5 l6 by simp
  qed
  then have e4: "s4 = s3" unfolding s4_def by (rule replace_literal_absent)
  have a5: "\<not> sublist [96, 96, 96] s4"
  proof (rule replace_literal_shorter [of "[]"])
    show "length [] < length [96, 96, 96]" by (simp add: js_def)
    show "length (replace_global (match_literal [96, 96, 96] []) s4) = length s4"
      unfolding s5_def [symmetric] using l1 l2 l3 l4 l5 l6 by simp
  qed
  then have e5: "s5 = s4" unfolding s5_def by (rule replace_literal_absent)
  have tl: "length (trim s5) = length s5" using l1 l2 l3 l4 l5 l6 t by simp
  have t5: "s5 = [] \<or> (\<not> is_white_space (hd s5) \<and> \<not> is_white_space (last s5))"
    using tl by (rule trim_fixed)
  then have "trim s5 = s5" by (rule trim_id)
  then have e6: "s5 = code" using t by simp
  then have "replace_global (match_literal [160] [32]) code = code"
    using e1 e2 e4 e5 s3_def by simp
  then have a3: "\<not> sublist [160] code" by (rule replace_code_unit_fixed [rotated]) simp
  show ?thesis
    unfolding environment_normal_def str_includes_def
    using a1 a2 a3 a5 t5 e1 e2 e4 e5 e6 by simp
qed

text \<open>
  Claim C6, amended. For every input whose first line, after step 1, begins none of
  \<open>classDiagram\<close>, \<open>usecaseDiagram\<close>, \<open>flowchart\<close> and \<open>graph\<close>, the normalizer
  returns the result of step 1 (escaped newlines, carriage returns and non-breaking
  spaces replaced, code fences removed, the ends trimmed) and changes nothing else;
  it returns the input unchanged exactly when step 1 has nothing to do on it: when
  the input has no escaped newline, no carriage return before a line feed, no
  non-breaking space, no code fence and no white space at either end.
\<close>

theorem other_families_only_normalized:
  assumes "\<not> startsWith (header_of (normalize_environment code)) (js ''classDiagram'')"
    and "\<not> startsWith (header_of (normalize_environment code)) (js ''usecaseDiagram'')"
    and "\<not> startsWith (header_of (normalize_environment code)) (js ''flowchart'')"
    and "\<not> startsWith (header_of (normalize_environment code)) (js ''graph'')"
  shows "fixMermaidCode code = normalize_environment code \<and>
         (fixMermaidCode code = code \<longleftrightarrow> environment_normal code)"
proof -
  have "fixMermaidCode code = normalize_environment code"
    using assms unfolding fixMermaidCode_def header_of_def Let_def by simp
  then show ?thesis using normalize_environment_id normalize_environment_fixed by auto
qed

lemma gantt_escaped_normalized:
  "normalize_environment (js ''gantt'' @ [92, 110] @ js ''title T'') = js ''gantt'' @ [LF] @ js ''title T''"
  by (simp add: normalize_environment_def match_literal_def trim_def is_white_space_def js_def)

lemma gantt_header:
  "header_of (js ''gantt'' @ [LF] @ js ''title T'') = js ''gantt''"
  by (subst header_of_two) (simp_all add: js_def trim_def is_white_space_def)

lemma gantt_escaped_header:
  "header_of (js ''gantt'' @ [92, 110] @ js ''title T'') = js ''gantt'' @ [92, 110] @ js ''title T''"
  by (simp add: header_of_def split_lines_single trim_def is_white_space_def js_def)

lemma gantt_no_family:
  "\<not> startsWith (js ''gantt'') (js ''classDiagram'')"
  "\<not> startsWith (js ''gantt'') (js ''usecaseDiagram'')"
  "\<not> startsWith (js ''gantt'') (js ''flowchart'')"
  "\<not> startsWith (js ''gantt'') (js ''graph'')"
  by (simp_all add: startsWith_def js_def)

text \<open>
  Claim C6 as stated fails: a gantt chart whose newline is escaped, as the response
  schema asks, is returned with a real line feed.
\<close>

theorem other_families_input_changed_counterexample:
  "\<not> startsWith (header_of (js ''gantt'' @ [92, 110] @ js ''title T'')) (js ''classDiagram'') \<and>
   \<not> startsWith (header_of (js ''gantt'' @ [92, 110] @ js ''title T'')) (js ''usecaseDiagram'') \<and>
   \<not> startsWith (header_of (js ''gantt'' @ [92, 110] @ js ''title T'')) (js ''flowchart'') \<and>
   \<not> startsWith (header_of (js ''gantt'' @ [92, 110] @ js ''title T'')) (js ''graph'') \<and>
   fixMermaidCode (js ''gantt'' @ [92, 110] @ js ''title T'') = js ''gantt'' @ [LF] @ js ''title T'' \<and>
   fixMermaidCode (js ''gantt'' @ [92, 110] @ js ''title T'') \<noteq> js ''gantt'' @ [92, 110] @ js ''title T''"
proof -
  have "fixMermaidCode (js ''gantt'' @ [92, 110] @ js ''title T'') = js ''gantt'' @ [LF] @ js ''title T''"
    unfolding fixMermaidCode_def Let_def gantt_escaped_normalized header_of_def [symmetric] gantt_header
    using gantt_no_family by simp
  moreover have "js ''gantt'' @ [LF] @ js ''title T'' \<noteq> js ''gantt'' @ [92, 110] @ js ''title T''"
    by (simp add: js_def)
  ultimately show ?thesis
    unfolding gantt_escaped_header by (simp add: startsWith_def js_def)
qed

text \<open>A witness of C6 (amended).\<close>

theorem other_families_only_normalized_witness:
  "fixMermaidCode (js ''gantt'' @ [92, 110] @ js ''title T'') = js ''gantt'' @ [LF] @ js ''title T'' \<and>
   fixMermaidCode (js ''gantt'' @ [92, 110] @ js ''title T'') \<noteq> js ''gantt'' @ [92, 110] @ js ''title T'' \<and>
   \<not> environment_normal (js ''gantt'' @ [92, 110] @ js ''title T'') \<and>
   environment_normal (js ''gantt'' @ [LF] @ js ''title T'') \<and>
   fixMermaidCode (js ''gantt'' @ [LF] @ js ''title T'') = js ''gantt'' @ [LF] @ js ''title T''"
proof -
  have n2: "normalize_environment (js ''gantt'' @ [LF] @ js ''title T'') = js ''gantt'' @ [LF] @ js ''title T''"
    by (simp add: normalize_environment_def match_literal_def trim_def is_white_space_def js_def)
  have d: "js ''gantt'' @ [LF] @ js ''title T'' \<noteq> js ''gantt'' @ [92, 110] @ js ''title T''"
    by (simp add: js_def)
  have 1: "fixMermaidCode (js ''gantt'' @ [92, 110] @ js ''title T'') = js ''gantt'' @ [LF] @ js ''title T'' \<and>
      (fixMermaidCode (js ''gantt'' @ [92, 110] @ js ''title T'') = js ''gantt'' @ [92, 110] @ js ''title T''
        \<longleftrightarrow> environment_normal (js ''gantt'' @ [92, 110] @ js ''title T''))"
    using other_families_only_normalized [of "js ''gantt'' @ [92, 110] @ js ''title T''"] gantt_no_family
    unfolding gantt_escaped_normalized gantt_header by blast
  have 2: "fixMermaidCode (js ''gantt'' @ [LF] @ js ''title T'') = js ''gantt'' @ [LF] @ js ''title T'' \<and>
      (fixMermaidCode (js ''gantt'' @ [LF] @ js ''title T'') = js ''gantt'' @ [LF] @ js ''title T''
        \<longleftrightarrow> environment_normal (js ''gantt'' @ [LF] @ js ''title T''))"
    using other_families_only_normalized [of "js ''gantt'' @ [LF] @ js ''title T''"] gantt_no_family
    unfolding n2 gantt_header by blast
  show ?thesis using 1 2 d by metis
qed



subsection \<open>The label expressions\<close>

lemma scan_label_SomeD:
  assumes "scan_label cl r = Some (g, k)"
  shows "label_body cl g \<and>
         ((r = g @ cl # drop k r \<and> k = length g + 1) \<or>
          (r = g @ DQUOTE # cl # drop k r \<and> k = length g + 2))"
  using assms
proof (induction r arbitrary: g k)
  case Nil
  then show ?case by simp
next
  case (Cons c cs)
  show ?case
  proof (cases "c = cl")
    case True
    then show ?thesis using Cons.prems by auto
  next
    case ncl: False
    show ?thesis
    proof (cases "c = DQUOTE \<and> prefix [cl] cs")
      case True
      then obtain cs' where "cs = cl # cs'" by (cases cs) auto
      then show ?thesis using Cons.prems ncl True by auto
    next
      case nq: False
      from Cons.prems ncl nq have nlt: "\<not> is_line_terminator c"
        by (auto split: if_splits)
      from Cons.prems ncl nq nlt obtain g' k' where
        s: "scan_label cl cs = Some (g', k')" and g: "g = c # g'" and k: "k = Suc k'"
        by (auto split: option.splits)
      note ih = Cons.IH [OF s]
      have "\<not> (c = DQUOTE \<and> prefix [cl] g')"
      proof
        assume a: "c = DQUOTE \<and> prefix [cl] g'"
        then obtain g'' where "g' = cl # g''" by (cases g') auto
        then have "prefix [cl] cs" using ih by (metis append_Cons prefix_code(1) Cons_prefix_Cons)
        then show False using nq a by simp
      qed
      then have "label_body cl g" using g ncl nlt ih by simp
      moreover have "(c # cs = g @ cl # drop k (c # cs) \<and> k = length g + 1) \<or>
          (c # cs = g @ DQUOTE # cl # drop k (c # cs) \<and> k = length g + 2)"
        using ih g k by auto
      ultimately show ?thesis by simp
    qed
  qed
qed

lemma scan_label_body:
  "label_body cl g \<Longrightarrow> cl \<noteq> DQUOTE \<Longrightarrow>
   scan_label cl (g @ DQUOTE # cl # x) = Some (g, length g + 2)"
proof (induction g)
  case Nil
  then show ?case by simp
next
  case (Cons c cs)
  then show ?case by (cases cs) auto
qed

lemma match_label_Cons:
  "match_label op cl (c # cs) =
     (if c = op then
        (case scan_label cl (drop (if prefix [DQUOTE] cs then 1 else 0) cs) of
           None \<Rightarrow> None
         | Some (g, k) \<Rightarrow>
             Some ([op, DQUOTE] @ g @ [DQUOTE, cl], 1 + (if prefix [DQUOTE] cs then 1 else 0) + k))
      else None)"
  by (simp add: match_label_def Let_def)

lemma replace_label_Cons:
  "replace_global (match_label op cl) (c # cs) =
     (if c = op then
        (case scan_label cl (drop (if prefix [DQUOTE] cs then 1 else 0) cs) of
           None \<Rightarrow> c # replace_global (match_label op cl) cs
         | Some (g, k) \<Rightarrow>
             [op, DQUOTE] @ g @ [DQUOTE, cl] @
             replace_global (match_label op cl)
               (drop ((if prefix [DQUOTE] cs then 1 else 0) + k) cs))
      else c # replace_global (match_label op cl) cs)"
proof (cases "c = op")
  case False
  then show ?thesis by (simp add: match_label_Cons)
next
  case True
  show ?thesis
  proof (cases "scan_label cl (drop (if prefix [DQUOTE] cs then 1 else 0) cs)")
    case None
    then show ?thesis using True by (simp add: match_label_Cons)
  next
    case (Some a)
    obtain g k where "a = (g, k)" by (cases a)
    then show ?thesis using True Some by (simp add: match_label_Cons)
  qed
qed

declare replace_global.simps(2) [simp del]

lemma replace_label_other:
  "c \<noteq> op \<Longrightarrow>
   replace_global (match_label op cl) (c # cs) = c # replace_global (match_label op cl) cs"
  by (simp add: replace_label_Cons)

lemma replace_label_hd:
  "replace_global (match_label op cl) s = [] \<longleftrightarrow> s = []"
  "s \<noteq> [] \<Longrightarrow> hd (replace_global (match_label op cl) s) = hd s"
  by (cases s; simp add: replace_label_Cons split: option.splits)+

lemma replace_label_prefix1:
  "prefix [x] (replace_global (match_label op cl) s) \<longleftrightarrow> prefix [x] s"
  by (cases s; simp add: replace_label_Cons split: option.splits)


lemma after_quote_simps [simp]:
  "after_quote [] = []"
  "after_quote (c # cs) = (if c = DQUOTE then cs else c # cs)"
  by (simp_all add: after_quote_def)

lemma replace_label_match:
  assumes "scan_label cl (after_quote cs) = Some (g, k)"
  shows "replace_global (match_label op cl) (op # cs) =
           [op, DQUOTE] @ g @ [DQUOTE, cl] @
           replace_global (match_label op cl) (drop k (after_quote cs))"
proof -
  have "drop ((if prefix [DQUOTE] cs then 1 else 0) + k) cs = drop k (after_quote cs)"
    by (simp add: after_quote_def add.commute)
  then show ?thesis
    using assms by (simp add: replace_label_Cons after_quote_def)
qed

lemma replace_label_no_match:
  assumes "scan_label cl (after_quote cs) = None"
  shows "replace_global (match_label op cl) (op # cs) =
           op # replace_global (match_label op cl) cs"
  using assms by (simp add: replace_label_Cons after_quote_def)

lemma scan_label_after_quote_None:
  "scan_label cl s = None \<Longrightarrow> scan_label cl (after_quote s) = None"
  by (cases s) (auto simp add: is_line_terminator_def split: if_splits option.splits)

lemma scan_label_None_replace:
  assumes "\<not> is_line_terminator op"
  shows "scan_label cl s = None \<Longrightarrow> scan_label cl (replace_global (match_label op cl) s) = None"
proof (induction s)
  case Nil
  then show ?case by simp
next
  case (Cons c cs)
  from Cons.prems have ncl: "c \<noteq> cl" and nq: "\<not> (c = DQUOTE \<and> prefix [cl] cs)"
    and rest: "is_line_terminator c \<or> scan_label cl cs = None"
    by (auto split: if_splits option.splits)
  have r: "replace_global (match_label op cl) (c # cs) = c # replace_global (match_label op cl) cs"
  proof (cases "c = op")
    case True
    then have "scan_label cl cs = None" using rest assms by simp
    then have "scan_label cl (after_quote cs) = None" by (rule scan_label_after_quote_None)
    then show ?thesis using True by (simp add: replace_label_no_match)
  next
    case False
    then show ?thesis by (simp add: replace_label_other)
  qed
  show ?case
    unfolding r using ncl nq rest Cons.IH by (auto simp add: replace_label_prefix1)
qed

lemma scan_label_None_replace_after_quote:
  assumes "\<not> is_line_terminator op" and "op \<noteq> DQUOTE"
    and "scan_label cl (after_quote s) = None"
  shows "scan_label cl (after_quote (replace_global (match_label op cl) s)) = None"
proof (cases s)
  case Nil
  then show ?thesis using assms by simp
next
  case (Cons c cs)
  show ?thesis
  proof (cases "c = DQUOTE")
    case True
    then have "replace_global (match_label op cl) s = DQUOTE # replace_global (match_label op cl) cs"
      using Cons assms(2) by (simp add: replace_label_other)
    moreover have "scan_label cl cs = None" using assms(3) Cons True by simp
    ultimately show ?thesis using scan_label_None_replace [OF assms(1)] by simp
  next
    case False
    then have "scan_label cl s = None" using assms(3) Cons by simp
    then have n: "scan_label cl (replace_global (match_label op cl) s) = None"
      by (rule scan_label_None_replace [OF assms(1)])
    have "hd (replace_global (match_label op cl) s) = c"
      using Cons by (simp add: replace_label_hd)
    moreover have "replace_global (match_label op cl) s \<noteq> []"
      using Cons by (simp add: replace_label_hd)
    ultimately obtain t where "replace_global (match_label op cl) s = c # t"
      by (cases "replace_global (match_label op cl) s") auto
    then show ?thesis using n False by simp
  qed
qed

lemma replace_label_idem:
  assumes "\<not> is_line_terminator op" and "op \<noteq> DQUOTE" and "cl \<noteq> DQUOTE"
  shows "replace_global (match_label op cl) (replace_global (match_label op cl) s) =
         replace_global (match_label op cl) s"
proof (induction "length s" arbitrary: s rule: less_induct)
  case less
  show ?case
  proof (cases s)
    case Nil
    then show ?thesis by simp
  next
    case (Cons c cs)
    have ih: "replace_global (match_label op cl) (replace_global (match_label op cl) t) =
         replace_global (match_label op cl) t" if "length t \<le> length cs" for t
      using less that Cons by simp
    show ?thesis
    proof (cases "c = op")
      case False
      then show ?thesis using Cons ih [of cs] by (simp add: replace_label_other)
    next
      case True
      show ?thesis
      proof (cases "scan_label cl (after_quote cs)")
        case None
        then have "scan_label cl (after_quote (replace_global (match_label op cl) cs)) = None"
          using scan_label_None_replace_after_quote assms by simp
        then show ?thesis
          using None True Cons ih [of cs] by (simp add: replace_label_no_match)
      next
        case (Some a)
        obtain g k where a: "a = (g, k)" by (cases a)
        let ?rest = "drop k (after_quote cs)"
        have lb: "label_body cl g" using scan_label_SomeD Some a by blast
        have len: "length ?rest \<le> length cs" by (simp add: after_quote_def)
        have r1: "replace_global (match_label op cl) s =
            op # DQUOTE # g @ DQUOTE # cl # replace_global (match_label op cl) ?rest"
          using replace_label_match [of cl cs g k op] Some a True Cons by simp
        have sc: "scan_label cl
            (after_quote (DQUOTE # g @ DQUOTE # cl # replace_global (match_label op cl) ?rest)) =
            Some (g, length g + 2)"
          using scan_label_body [OF lb assms(3)] by simp
        have "replace_global (match_label op cl)
            (op # DQUOTE # g @ DQUOTE # cl # replace_global (match_label op cl) ?rest) =
            op # DQUOTE # g @ DQUOTE # cl #
              replace_global (match_label op cl) (replace_global (match_label op cl) ?rest)"
          using replace_label_match [OF sc, of op] by simp
        then show ?thesis using r1 ih [OF len] by simp
      qed
    qed
  qed
qed



subsection \<open>Inserted quotes\<close>

inductive_cases qi_NilE: "quotes_inserted op cl [] s'"
inductive_cases qi_ConsE: "quotes_inserted op cl (c # s) s'"

lemma qi_refl: "quotes_inserted op cl s s"
  by (induction s) (auto intro: quotes_inserted.intros)

lemma qi_append:
  "quotes_inserted op cl a a' \<Longrightarrow> quotes_inserted op cl b b' \<Longrightarrow>
   quotes_inserted op cl (a @ b) (a' @ b')"
  by (induction rule: quotes_inserted.induct) (auto intro: quotes_inserted.intros)

lemma qi_ConsD:
  "quotes_inserted op cl (c # s) x \<Longrightarrow>
   (\<exists>s'. x = c # s' \<and> quotes_inserted op cl s s') \<or>
   (\<exists>s'. c = op \<and> x = op # DQUOTE # s' \<and> quotes_inserted op cl s s') \<or>
   (\<exists>s'. c = cl \<and> x = DQUOTE # cl # s' \<and> quotes_inserted op cl s s')"
  by (auto elim: qi_ConsE)

lemma qi_appendD:
  "quotes_inserted op cl (a @ b) x \<Longrightarrow>
   \<exists>a' b'. x = a' @ b' \<and> quotes_inserted op cl a a' \<and> quotes_inserted op cl b b'"
proof (induction a arbitrary: x)
  case Nil
  then show ?case using qi_Nil by fastforce
next
  case (Cons c a)
  from Cons.prems have "quotes_inserted op cl (c # (a @ b)) x" by simp
  then consider
      (same) s' where "x = c # s'" "quotes_inserted op cl (a @ b) s'"
    | (after) s' where "c = op" "x = op # DQUOTE # s'" "quotes_inserted op cl (a @ b) s'"
    | (before) s' where "c = cl" "x = DQUOTE # cl # s'" "quotes_inserted op cl (a @ b) s'"
    using qi_ConsD by blast
  then show ?case
  proof cases
    case same
    then obtain a' b' where "s' = a' @ b'" "quotes_inserted op cl a a'" "quotes_inserted op cl b b'"
      using Cons.IH by blast
    then have "x = (c # a') @ b' \<and> quotes_inserted op cl (c # a) (c # a') \<and> quotes_inserted op cl b b'"
      using same by (simp add: qi_Cons)
    then show ?thesis by blast
  next
    case after
    then obtain a' b' where "s' = a' @ b'" "quotes_inserted op cl a a'" "quotes_inserted op cl b b'"
      using Cons.IH by blast
    then have "x = (op # DQUOTE # a') @ b' \<and> quotes_inserted op cl (c # a) (op # DQUOTE # a') \<and>
        quotes_inserted op cl b b'"
      using after by (simp add: qi_after)
    then show ?thesis by blast
  next
    case before
    then obtain a' b' where "s' = a' @ b'" "quotes_inserted op cl a a'" "quotes_inserted op cl b b'"
      using Cons.IH by blast
    then have "x = (DQUOTE # cl # a') @ b' \<and> quotes_inserted op cl (c # a) (DQUOTE # cl # a') \<and>
        quotes_inserted op cl b b'"
      using before by (simp add: qi_before)
    then show ?thesis by blast
  qed
qed

lemma qi_prefix1:
  "quotes_inserted op cl s s' \<Longrightarrow> x \<noteq> DQUOTE \<Longrightarrow> prefix [x] s' \<Longrightarrow> prefix [x] s"
  by (induction rule: quotes_inserted.induct) auto

lemma qi_replace_label:
  "quotes_inserted op cl s (replace_global (match_label op cl) s)"
proof (induction "length s" arbitrary: s rule: less_induct)
  case less
  show ?case
  proof (cases s)
    case Nil
    then show ?thesis by (simp add: qi_Nil)
  next
    case (Cons c cs)
    have ih: "quotes_inserted op cl t (replace_global (match_label op cl) t)"
      if "length t \<le> length cs" for t
      using less that Cons by simp
    show ?thesis
    proof (cases "c = op")
      case False
      then show ?thesis using Cons ih [of cs] by (simp add: replace_label_other qi_Cons)
    next
      case True
      show ?thesis
      proof (cases "scan_label cl (after_quote cs)")
        case None
        then show ?thesis using True Cons ih [of cs] by (simp add: replace_label_no_match qi_Cons)
      next
        case (Some a)
        obtain g k where a: "a = (g, k)" by (cases a)
        let ?aq = "after_quote cs"
        let ?rest = "drop k ?aq"
        let ?R = "replace_global (match_label op cl) ?rest"
        have len: "length ?rest \<le> length cs" by (simp add: after_quote_def)
        have r1: "replace_global (match_label op cl) s = op # DQUOTE # g @ DQUOTE # cl # ?R"
          using replace_label_match [of cl cs g k op] Some a True Cons by simp
        have d: "?aq = g @ cl # ?rest \<or> ?aq = g @ DQUOTE # cl # ?rest"
          using scan_label_SomeD [of cl ?aq g k] Some a by auto
        have tail: "quotes_inserted op cl ?aq (g @ DQUOTE # cl # ?R)"
        proof -
          from d show ?thesis
          proof
            assume e: "?aq = g @ cl # ?rest"
            have "quotes_inserted op cl (g @ cl # ?rest) (g @ DQUOTE # cl # ?R)"
              by (intro qi_append qi_refl qi_before ih len)
            then show ?thesis using e by simp
          next
            assume e: "?aq = g @ DQUOTE # cl # ?rest"
            have "quotes_inserted op cl (g @ DQUOTE # cl # ?rest) (g @ DQUOTE # cl # ?R)"
              by (intro qi_append qi_refl qi_Cons ih len)
            then show ?thesis using e by simp
          qed
        qed
        have "quotes_inserted op cl (op # cs) (op # DQUOTE # g @ DQUOTE # cl # ?R)"
        proof (cases "prefix [DQUOTE] cs")
          case True
          then obtain t where t: "cs = DQUOTE # t" by (cases cs) auto
          then have "?aq = t" by simp
          then show ?thesis using tail t by (simp add: qi_Cons)
        next
          case False
          then have "?aq = cs" by (simp add: after_quote_def)
          then show ?thesis using tail by (simp add: qi_after)
        qed
        then show ?thesis using r1 Cons True by simp
      qed
    qed
  qed
qed



lemma label_body_not_hd: "label_body cl g \<Longrightarrow> \<not> prefix [cl] g"
  by (cases g) auto

lemma label_body_qi:
  assumes "cl \<noteq> op'" "cl \<noteq> cl'" "cl \<noteq> DQUOTE" "op' \<noteq> DQUOTE" "cl' \<noteq> DQUOTE"
    "\<not> is_line_terminator op'" "\<not> is_line_terminator cl'"
  shows "quotes_inserted op' cl' g g' \<Longrightarrow> label_body cl g \<Longrightarrow> label_body cl g'"
proof (induction rule: quotes_inserted.induct)
  case qi_Nil
  then show ?case by simp
next
  case (qi_Cons s s' c)
  then have "\<not> prefix [cl] s' \<or> c \<noteq> DQUOTE"
    using qi_prefix1 [OF qi_Cons.hyps, of cl] assms(3) by auto
  then show ?case using qi_Cons by auto
next
  case (qi_after s s')
  then have "\<not> prefix [cl] s'"
    using qi_prefix1 [OF qi_after.hyps, of cl] assms(3) label_body_not_hd [of cl s] by auto
  then show ?case using qi_after assms by (auto simp add: is_line_terminator_def)
next
  case (qi_before s s')
  then show ?case using assms by (auto simp add: is_line_terminator_def)
qed

lemma scan_label_None_qi:
  assumes "cl \<noteq> op'" "cl \<noteq> cl'" "cl \<noteq> DQUOTE" "op' \<noteq> DQUOTE" "cl' \<noteq> DQUOTE"
    "\<not> is_line_terminator op'" "\<not> is_line_terminator cl'"
  shows "quotes_inserted op' cl' r r' \<Longrightarrow> scan_label cl r = None \<Longrightarrow> scan_label cl r' = None"
proof (induction rule: quotes_inserted.induct)
  case qi_Nil
  then show ?case by simp
next
  case (qi_Cons s s' c)
  from qi_Cons.prems have ncl: "c \<noteq> cl" and nq: "\<not> (c = DQUOTE \<and> prefix [cl] s)"
    and rest: "is_line_terminator c \<or> scan_label cl s = None"
    by (auto split: if_splits option.splits)
  have "\<not> (c = DQUOTE \<and> prefix [cl] s')"
    using nq qi_prefix1 [OF qi_Cons.hyps, of cl] assms(3) by auto
  then show ?case using ncl rest qi_Cons.IH by auto
next
  case (qi_after s s')
  from qi_after.prems assms have n: "scan_label cl s = None"
    by (auto split: if_splits option.splits)
  then have "\<not> prefix [cl] s" by (cases s) auto
  then have "\<not> prefix [cl] s'"
    using qi_prefix1 [OF qi_after.hyps, of cl] assms(3) by auto
  then show ?case using n qi_after.IH assms by (auto simp add: is_line_terminator_def)
next
  case (qi_before s s')
  from qi_before.prems assms have n: "scan_label cl s = None"
    by (auto split: if_splits option.splits)
  then show ?case using qi_before.IH assms by (auto simp add: is_line_terminator_def)
qed

lemma scan_label_None_qi_after_quote:
  assumes "cl \<noteq> op'" "cl \<noteq> cl'" "cl \<noteq> DQUOTE" "op' \<noteq> DQUOTE" "cl' \<noteq> DQUOTE"
    "\<not> is_line_terminator op'" "\<not> is_line_terminator cl'"
    and q: "quotes_inserted op' cl' cs cs'"
    and n: "scan_label cl (after_quote cs) = None"
  shows "scan_label cl (after_quote cs') = None"
  using q
proof (cases rule: quotes_inserted.cases)
  case qi_Nil
  then show ?thesis by simp
next
  case (qi_Cons s s' c)
  show ?thesis
  proof (cases "c = DQUOTE")
    case True
    then show ?thesis
      using qi_Cons n scan_label_None_qi [OF assms(1-7), of s s'] by simp
  next
    case False
    then show ?thesis
      using qi_Cons n q scan_label_None_qi [OF assms(1-7), of cs cs'] by simp
  qed
next
  case (qi_after s s')
  then show ?thesis
    using n q assms(4) scan_label_None_qi [OF assms(1-7), of cs cs'] by simp
next
  case (qi_before s s')
  have "scan_label cl (cl' # s) = None" using n qi_before assms(5) by simp
  moreover have "quotes_inserted op' cl' (cl' # s) (cl' # s')"
    using qi_before by (simp add: quotes_inserted.qi_Cons)
  ultimately have "scan_label cl (cl' # s') = None"
    using scan_label_None_qi [OF assms(1-7)] by blast
  then show ?thesis using qi_before by simp
qed

text \<open>
  A text that the replacement for one kind of bracket leaves unchanged stays so when
  quotes are inserted at another kind of bracket.
\<close>

lemma replace_label_fixed_qi:
  assumes "op \<noteq> op'" "op \<noteq> cl'" "op \<noteq> DQUOTE" "cl \<noteq> op'" "cl \<noteq> cl'" "cl \<noteq> DQUOTE"
    "op' \<noteq> DQUOTE" "cl' \<noteq> DQUOTE" "\<not> is_line_terminator op'" "\<not> is_line_terminator cl'"
  shows "replace_global (match_label op cl) s = s \<Longrightarrow> quotes_inserted op' cl' s s' \<Longrightarrow>
         replace_global (match_label op cl) s' = s'"
proof (induction "length s" arbitrary: s s' rule: less_induct)
  case less
  note fixed = less.prems(1) and q = less.prems(2)
  show ?case
  proof (cases s)
    case Nil
    then have "s' = []" using q by (auto elim: qi_NilE)
    then show ?thesis by simp
  next
    case (Cons c cs)
    have ih: "replace_global (match_label op cl) t' = t'"
      if "length t \<le> length cs" "replace_global (match_label op cl) t = t"
         "quotes_inserted op' cl' t t'" for t t'
      using less.hyps [of t t'] that Cons by simp
    show ?thesis
    proof (cases "c = op \<and> scan_label cl (after_quote cs) \<noteq> None")
      case True
      then obtain g k where sc: "scan_label cl (after_quote cs) = Some (g, k)" and c: "c = op"
        by auto
      let ?rest = "drop k (after_quote cs)"
      have lb: "label_body cl g" using scan_label_SomeD sc by blast
      have len: "length ?rest \<le> length cs" by (simp add: after_quote_def)
      define X where "X = replace_global (match_label op cl) ?rest"
      have r1: "replace_global (match_label op cl) s = op # DQUOTE # g @ DQUOTE # cl # X"
        using replace_label_match [OF sc, of op] c Cons X_def by simp
      have "s = op # DQUOTE # g @ DQUOTE # cl # X"
        using r1 unfolding fixed .
      then have cs: "cs = DQUOTE # g @ DQUOTE # cl # X"
        unfolding Cons by simp
      then have aq: "after_quote cs = g @ DQUOTE # cl # X"
        by simp
      have "scan_label cl (after_quote cs) = Some (g, length g + 2)"
        unfolding aq using scan_label_body [OF lb assms(6)] by simp
      then have k: "k = length g + 2" using sc by simp
      have "?rest = X" unfolding aq k by simp
      then have rest: "replace_global (match_label op cl) ?rest = ?rest"
        using X_def by simp
      have s: "s = op # DQUOTE # g @ DQUOTE # cl # ?rest"
        using Cons c cs \<open>?rest = X\<close> by simp
      from q obtain s1 where s1: "s' = op # s1"
        "quotes_inserted op' cl' (DQUOTE # g @ DQUOTE # cl # ?rest) s1"
        using qi_ConsD [of op' cl' op "DQUOTE # g @ DQUOTE # cl # ?rest" s'] s assms(1,2)
        by auto
      then obtain s2 where s2: "s1 = DQUOTE # s2"
        "quotes_inserted op' cl' (g @ DQUOTE # cl # ?rest) s2"
        using qi_ConsD [of op' cl' DQUOTE "g @ DQUOTE # cl # ?rest" s1] assms(7,8)
        by auto
      then obtain g' s3 where s3: "s2 = g' @ s3" "quotes_inserted op' cl' g g'"
        "quotes_inserted op' cl' (DQUOTE # cl # ?rest) s3"
        using qi_appendD [of op' cl' g "DQUOTE # cl # ?rest" s2] by auto
      then obtain s4 where s4: "s3 = DQUOTE # s4" "quotes_inserted op' cl' (cl # ?rest) s4"
        using qi_ConsD [of op' cl' DQUOTE "cl # ?rest" s3] assms(7,8) by auto
      then obtain rest' where s5: "s4 = cl # rest'" "quotes_inserted op' cl' ?rest rest'"
        using qi_ConsD [of op' cl' cl ?rest s4] assms(4,5) by auto
      have s': "s' = op # DQUOTE # g' @ DQUOTE # cl # rest'"
        using s1 s2 s3 s4 s5 by simp
      have lb': "label_body cl g'"
        using label_body_qi [OF assms(4,5,6,7,8,9,10) s3(2) lb] .
      have "scan_label cl (after_quote (DQUOTE # g' @ DQUOTE # cl # rest')) = Some (g', length g' + 2)"
        using scan_label_body [OF lb' assms(6)] by simp
      then have "replace_global (match_label op cl) s' =
          op # DQUOTE # g' @ DQUOTE # cl # replace_global (match_label op cl) rest'"
        unfolding s' using replace_label_match [of cl "DQUOTE # g' @ DQUOTE # cl # rest'" g' "length g' + 2" op]
        by simp
      moreover have "replace_global (match_label op cl) rest' = rest'"
        using ih [OF len rest s5(2)] .
      ultimately show ?thesis using s' by simp
    next
      case False
      have r1: "replace_global (match_label op cl) s = c # replace_global (match_label op cl) cs"
      proof (cases "c = op")
        case True
        then have "scan_label cl (after_quote cs) = None" using False by (cases "scan_label cl (after_quote cs)") auto
        then show ?thesis using True Cons by (simp add: replace_label_no_match)
      next
        case False
        then show ?thesis using Cons by (simp add: replace_label_other)
      qed
      have fcs: "replace_global (match_label op cl) cs = cs" using r1 fixed Cons by simp
      from q Cons consider
          (same) t' where "s' = c # t'" "quotes_inserted op' cl' cs t'"
        | (after) t' where "c = op'" "s' = op' # DQUOTE # t'" "quotes_inserted op' cl' cs t'"
        | (before) t' where "c = cl'" "s' = DQUOTE # cl' # t'" "quotes_inserted op' cl' cs t'"
        using qi_ConsD [of op' cl' c cs s'] by blast
      then show ?thesis
      proof cases
        case same
        have t': "replace_global (match_label op cl) t' = t'"
          using ih [OF _ fcs same(2)] by simp
        show ?thesis
        proof (cases "c = op")
          case True
          then have "scan_label cl (after_quote cs) = None" using False by (cases "scan_label cl (after_quote cs)") auto
          then have "scan_label cl (after_quote t') = None"
            using scan_label_None_qi_after_quote [OF assms(4,5,6,7,8,9,10) same(2)] by simp
          then show ?thesis using same True t' by (simp add: replace_label_no_match)
        next
          case False
          then show ?thesis using same t' by (simp add: replace_label_other)
        qed
      next
        case after
        have t': "replace_global (match_label op cl) t' = t'"
          using ih [OF _ fcs after(3)] by simp
        then show ?thesis using after assms(1,3) by (simp add: replace_label_other)
      next
        case before
        have t': "replace_global (match_label op cl) t' = t'"
          using ih [OF _ fcs before(3)] by simp
        then show ?thesis using before assms(2,3) by (simp add: replace_label_other)
      qed
    qed
  qed
qed



subsection \<open>The label rule on a line and on a text\<close>

lemma qi_set: "quotes_inserted op cl s s' \<Longrightarrow> set s' \<subseteq> insert DQUOTE (set s)"
  by (induction rule: quotes_inserted.induct) auto

lemma replace_label_set:
  "set (replace_global (match_label op cl) s) \<subseteq> insert DQUOTE (set s)"
  using qi_set [OF qi_replace_label] .

lemma quote_labels_set: "set (quote_labels l) \<subseteq> insert DQUOTE (set l)"
proof -
  have "set (quote_labels l) \<subseteq>
        insert DQUOTE (set (replace_global (match_label 40 41) (replace_global (match_label 91 93) l)))"
    unfolding quote_labels_def by (rule replace_label_set)
  also have "\<dots> \<subseteq> insert DQUOTE (set (replace_global (match_label 91 93) l))"
    using replace_label_set [of 40 41] by blast
  also have "\<dots> \<subseteq> insert DQUOTE (set l)"
    using replace_label_set [of 91 93] by blast
  finally show ?thesis .
qed

lemma fix_flowchart_line_no_LF: "LF \<notin> set l \<Longrightarrow> LF \<notin> set (fix_flowchart_line l)"
  using quote_labels_set [of l] by (auto simp add: fix_flowchart_line_def)

lemma quote_labels_fixed:
  "replace_global (match_label 91 93) (quote_labels l) = quote_labels l"
  "replace_global (match_label 40 41) (quote_labels l) = quote_labels l"
  "replace_global (match_label 123 125) (quote_labels l) = quote_labels l"
proof -
  let ?B = "replace_global (match_label 91 93)"
  let ?P = "replace_global (match_label 40 41)"
  let ?C = "replace_global (match_label 123 125)"
  have q: "quote_labels l = ?C (?P (?B l))" by (simp add: quote_labels_def)
  have b1: "?B (?B l) = ?B l"
    by (rule replace_label_idem) (simp_all add: is_line_terminator_def)
  have b2: "?B (?P (?B l)) = ?P (?B l)"
    by (rule replace_label_fixed_qi [OF _ _ _ _ _ _ _ _ _ _ b1 qi_replace_label])
       (simp_all add: is_line_terminator_def)
  show "?B (quote_labels l) = quote_labels l"
    unfolding q
    by (rule replace_label_fixed_qi [OF _ _ _ _ _ _ _ _ _ _ b2 qi_replace_label])
       (simp_all add: is_line_terminator_def)
  have p1: "?P (?P (?B l)) = ?P (?B l)"
    by (rule replace_label_idem) (simp_all add: is_line_terminator_def)
  show "?P (quote_labels l) = quote_labels l"
    unfolding q
    by (rule replace_label_fixed_qi [OF _ _ _ _ _ _ _ _ _ _ p1 qi_replace_label])
       (simp_all add: is_line_terminator_def)
  show "?C (quote_labels l) = quote_labels l"
    unfolding q
    by (rule replace_label_idem) (simp_all add: is_line_terminator_def)
qed

lemma quote_labels_idem: "quote_labels (quote_labels l) = quote_labels l"
proof -
  have "quote_labels (quote_labels l) =
        replace_global (match_label 123 125)
          (replace_global (match_label 40 41)
            (replace_global (match_label 91 93) (quote_labels l)))"
    by (simp add: quote_labels_def)
  then show ?thesis by (simp only: quote_labels_fixed)
qed

lemma fix_flowchart_line_idem:
  "fix_flowchart_line (fix_flowchart_line l) = fix_flowchart_line l"
  by (simp add: fix_flowchart_line_def quote_labels_idem)

lemma split_lines_fix_flowchart:
  "split_lines (fix_flowchart (split_lines s)) = map fix_flowchart_line (split_lines s)"
  unfolding fix_flowchart_def
  by (rule split_join_lines) (auto simp add: split_lines_no_LF fix_flowchart_line_no_LF)

lemma fix_flowchart_idem:
  "fix_flowchart (split_lines (fix_flowchart (split_lines s))) = fix_flowchart (split_lines s)"
proof -
  have "map fix_flowchart_line (map fix_flowchart_line (split_lines s)) =
        map fix_flowchart_line (split_lines s)"
    by (simp add: fix_flowchart_line_idem)
  then have "fix_flowchart (map fix_flowchart_line (split_lines s)) = fix_flowchart (split_lines s)"
    by (simp only: fix_flowchart_def)
  then show ?thesis by (simp only: split_lines_fix_flowchart)
qed



subsection \<open>The whole normalizer on a flowchart\<close>

lemma qa_refl: "quotes_added s s"
  by (induction s) (auto intro: quotes_added.intros)

inductive_cases qa_to_NilE: "quotes_added a []"
inductive_cases qa_to_ConsE: "quotes_added a (c # s)"

lemma qa_trans: "quotes_added b c \<Longrightarrow> quotes_added a b \<Longrightarrow> quotes_added a c"
proof (induction arbitrary: a rule: quotes_added.induct)
  case qa_Nil
  then show ?case by simp
next
  case (qa_Cons s s' c)
  from qa_Cons.prems show ?case
  proof (rule qa_to_ConsE)
    fix t assume "a = c # t" "quotes_added t s"
    then show ?thesis using qa_Cons.IH quotes_added.qa_Cons by blast
  next
    assume "c = DQUOTE" "quotes_added a s"
    then show ?thesis using qa_Cons.IH quotes_added.qa_ins by blast
  qed
next
  case (qa_ins s s')
  then show ?case using quotes_added.qa_ins by blast
qed

lemma qa_append:
  "quotes_added a a' \<Longrightarrow> quotes_added b b' \<Longrightarrow> quotes_added (a @ b) (a' @ b')"
  by (induction rule: quotes_added.induct) (auto intro: quotes_added.intros)

lemma qi_qa: "quotes_inserted op cl s s' \<Longrightarrow> quotes_added s s'"
  by (induction rule: quotes_inserted.induct) (auto intro: quotes_added.intros)

lemma qa_quote_labels: "quotes_added l (quote_labels l)"
  unfolding quote_labels_def
  by (intro qa_trans [OF qi_qa [OF qi_replace_label]] qa_refl)

lemma qa_fix_flowchart_line: "quotes_added l (fix_flowchart_line l)"
  by (simp add: fix_flowchart_line_def qa_quote_labels qa_refl)

lemma qa_join_lines:
  "quotes_added (join_lines ls) (join_lines (map fix_flowchart_line ls))"
proof (induction ls rule: join_lines.induct)
  case 1
  then show ?case by (simp add: qa_Nil)
next
  case (2 l)
  then show ?case by (simp add: qa_fix_flowchart_line)
next
  case (3 l v va)
  have "quotes_added (l @ LF # join_lines (v # va))
          (fix_flowchart_line l @ LF # join_lines (map fix_flowchart_line (v # va)))"
    by (intro qa_append qa_fix_flowchart_line qa_Cons 3)
  then show ?case by simp
qed

lemma qa_fix_flowchart: "quotes_added s (fix_flowchart (split_lines s))"
  using qa_join_lines [of "split_lines s"] by (simp add: fix_flowchart_def join_split_lines)

lemma qa_prefix:
  "quotes_added s s' \<Longrightarrow> DQUOTE \<notin> set p \<Longrightarrow> prefix p s' \<Longrightarrow> prefix p s"
proof (induction arbitrary: p rule: quotes_added.induct)
  case qa_Nil
  then show ?case by simp
next
  case (qa_Cons s s' c)
  then show ?case by (cases p) auto
next
  case (qa_ins s s')
  then show ?case by (cases p) auto
qed

lemma qa_sublist:
  "quotes_added s s' \<Longrightarrow> DQUOTE \<notin> set p \<Longrightarrow> sublist p s' \<Longrightarrow> sublist p s"
proof (induction rule: quotes_added.induct)
  case qa_Nil
  then show ?case by simp
next
  case (qa_Cons s s' c)
  from qa_Cons.prems(2) have "prefix p (c # s') \<or> sublist p s'"
    by (simp add: sublist_Cons_right)
  then show ?case
  proof
    assume "prefix p (c # s')"
    then have "prefix p (c # s)"
      using qa_prefix [OF quotes_added.qa_Cons [OF qa_Cons.hyps], of p c] qa_Cons.prems(1) by simp
    then show ?thesis by (simp add: sublist_Cons_right)
  next
    assume "sublist p s'"
    then show ?thesis using qa_Cons by (simp add: sublist_Cons_right)
  qed
next
  case (qa_ins s s')
  from qa_ins.prems(2) have "prefix p (DQUOTE # s') \<or> sublist p s'"
    by (simp add: sublist_Cons_right)
  then show ?case
  proof
    assume "prefix p (DQUOTE # s')"
    then have "p = []" using qa_ins.prems(1) by (cases p) auto
    then show ?thesis by simp
  next
    assume "sublist p s'"
    then show ?thesis using qa_ins by simp
  qed
qed

lemma qa_from_Nil: "quotes_added [] s' \<Longrightarrow> set s' \<subseteq> {DQUOTE}"
  by (induction "[] :: jsstring" s' rule: quotes_added.induct) auto

lemma qa_ends:
  "quotes_added s s' \<Longrightarrow> s \<noteq> [] \<Longrightarrow>
   s' \<noteq> [] \<and> (hd s' = hd s \<or> hd s' = DQUOTE) \<and> (last s' = last s \<or> last s' = DQUOTE)"
proof (induction rule: quotes_added.induct)
  case qa_Nil
  then show ?case by simp
next
  case (qa_Cons s s' c)
  show ?case
  proof (cases "s = []")
    case True
    then have "set s' \<subseteq> {DQUOTE}" using qa_Cons.hyps qa_from_Nil by simp
    then have "s' \<noteq> [] \<Longrightarrow> last s' = DQUOTE" using last_in_set by blast
    then show ?thesis using True by auto
  next
    case False
    then show ?thesis using qa_Cons.IH by auto
  qed
next
  case (qa_ins s s')
  then show ?case by auto
qed

lemma environment_normal_qa:
  assumes "environment_normal s" and "quotes_added s s'" and "s \<noteq> []"
  shows "environment_normal s'"
proof -
  have "\<not> is_white_space DQUOTE" by (simp add: is_white_space_def)
  then have "\<not> is_white_space (hd s') \<and> \<not> is_white_space (last s')"
    using qa_ends [OF assms(2,3)] assms(1,3) by (auto simp add: environment_normal_def)
  moreover have "\<not> sublist p s'" if "\<not> sublist p s" "DQUOTE \<notin> set p" for p
    using qa_sublist [OF assms(2)] that by blast
  ultimately show ?thesis
    using assms(1) by (simp add: environment_normal_def str_includes_def)
qed

lemma sublist_trim: "sublist (trim l) l"
proof -
  have "sublist (dropWhile is_white_space (rev (dropWhile is_white_space l)))
          (rev (dropWhile is_white_space l))"
    by simp
  then have "sublist (trim l) (dropWhile is_white_space l)"
    unfolding trim_def by (metis sublist_rev rev_rev_ident)
  then show ?thesis using sublist_dropWhile sublist_order.order.trans by blast
qed

lemma header_line_kept:
  assumes "startsWith (trim l) p" and "p = js ''flowchart'' \<or> p = js ''graph''"
  shows "fix_flowchart_line l = l"
proof -
  have "sublist p l"
    using assms(1) sublist_trim [of l] prefix_imp_sublist sublist_order.order.trans
    unfolding startsWith_def by blast
  then show ?thesis using assms(2) by (auto simp add: fix_flowchart_line_def str_includes_def)
qed

lemma flowchart_header_not_other:
  assumes "startsWith h (js ''flowchart'') \<or> startsWith h (js ''graph'')"
  shows "\<not> startsWith h (js ''classDiagram'')" "\<not> startsWith h (js ''usecaseDiagram'')"
  using assms by (auto simp add: startsWith_def js_def prefix_def)

lemma fixMermaidCode_flowchart:
  assumes "startsWith (header_of (normalize_environment code)) (js ''flowchart'') \<or>
           startsWith (header_of (normalize_environment code)) (js ''graph'')"
  shows "fixMermaidCode code = fix_flowchart (split_lines (normalize_environment code))"
  using assms flowchart_header_not_other [OF assms]
  unfolding fixMermaidCode_def header_of_def Let_def by simp

lemma header_of_fix_flowchart:
  assumes "startsWith (header_of s) (js ''flowchart'') \<or> startsWith (header_of s) (js ''graph'')"
  shows "header_of (fix_flowchart (split_lines s)) = header_of s"
proof -
  obtain l ls where e: "split_lines s = l # ls" by (cases "split_lines s") auto
  have "fix_flowchart_line l = l"
    using assms e header_line_kept [of l] unfolding header_of_def by auto
  then show ?thesis
    unfolding header_of_def split_lines_fix_flowchart using e by simp
qed

lemma fixMermaidCode_flowchart_idem:
  assumes n: "environment_normal s"
    and h: "startsWith (header_of s) (js ''flowchart'') \<or> startsWith (header_of s) (js ''graph'')"
  shows "fixMermaidCode s = fix_flowchart (split_lines s)"
    and "fixMermaidCode (fixMermaidCode s) = fixMermaidCode s"
proof -
  have ns: "normalize_environment s = s" using n by (rule normalize_environment_id)
  show 1: "fixMermaidCode s = fix_flowchart (split_lines s)"
    using fixMermaidCode_flowchart [of s] h unfolding ns by simp
  let ?y = "fix_flowchart (split_lines s)"
  have "s \<noteq> []" using h by (auto simp add: header_of_def trim_def startsWith_def js_def)
  then have "environment_normal ?y"
    using environment_normal_qa [OF n qa_fix_flowchart] by simp
  then have ny: "normalize_environment ?y = ?y" by (rule normalize_environment_id)
  have "startsWith (header_of ?y) (js ''flowchart'') \<or> startsWith (header_of ?y) (js ''graph'')"
    using h header_of_fix_flowchart [OF h] by simp
  then have "fixMermaidCode ?y = fix_flowchart (split_lines ?y)"
    using fixMermaidCode_flowchart [of ?y] unfolding ny by simp
  then show "fixMermaidCode (fixMermaidCode s) = fixMermaidCode s"
    unfolding 1 by (simp only: fix_flowchart_idem)
qed



text \<open>
  Claim C2. The label normalization of a flowchart is idempotent: on every text,
  applying the rule to the lines of its own result gives that result again, and so
  does the replacement of the labels of a single line. On a text that needs no
  environment normalization and whose first line begins with \<open>flowchart\<close> or
  \<open>graph\<close>, \<open>fixMermaidCode\<close> is this rule, and applying \<open>fixMermaidCode\<close> twice
  yields the same text as applying it once.
\<close>

theorem flowchart_label_rule_idempotent:
  "fix_flowchart (split_lines (fix_flowchart (split_lines s))) = fix_flowchart (split_lines s) \<and>
   quote_labels (quote_labels line) = quote_labels line \<and>
   (environment_normal s \<and>
    (startsWith (header_of s) (js ''flowchart'') \<or> startsWith (header_of s) (js ''graph'')) \<longrightarrow>
      fixMermaidCode s = fix_flowchart (split_lines s) \<and>
      fixMermaidCode (fixMermaidCode s) = fixMermaidCode s)"
  using fix_flowchart_idem quote_labels_idem fixMermaidCode_flowchart_idem by blast

lemma example_graph_lines:
  "split_lines (js ''graph TD'' @ [LF] @ js ''A[x]'') = [js ''graph TD'', js ''A[x]'']"
  by (rule split_lines_two) (simp_all add: js_def)

lemma example_graph_normal: "environment_normal (js ''graph TD'' @ [LF] @ js ''A[x]'')"
  by (simp add: environment_normal_def str_includes_def js_def is_white_space_def sublist_Cons_right)

lemma example_graph_header:
  "header_of (js ''graph TD'' @ [LF] @ js ''A[x]'') = js ''graph TD''"
  by (subst header_of_two) (simp_all add: js_def trim_def is_white_space_def)

lemma example_label: "quote_labels (js ''A[x]'') = [65, 91, DQUOTE, 120, DQUOTE, 93]"
  by (simp add: quote_labels_def replace_global.simps match_label_def is_line_terminator_def js_def)

lemma example_graph_fixed:
  "fix_flowchart [js ''graph TD'', js ''A[x]''] =
     js ''graph TD'' @ [LF] @ [65, 91, DQUOTE, 120, DQUOTE, 93]"
proof -
  have "fix_flowchart_line (js ''graph TD'') = js ''graph TD''"
    by (simp add: fix_flowchart_line_def str_includes_def js_def sublist_Cons_right)
  moreover have "fix_flowchart_line (js ''A[x]'') = [65, 91, DQUOTE, 120, DQUOTE, 93]"
    unfolding fix_flowchart_line_def example_label
    by (simp add: str_includes_def js_def sublist_Cons_right)
  ultimately show ?thesis by (simp add: fix_flowchart_def)
qed

text \<open>A witness of C2: a graph with one unquoted label.\<close>

theorem flowchart_label_rule_idempotent_witness:
  "environment_normal (js ''graph TD'' @ [LF] @ js ''A[x]'') \<and>
   startsWith (header_of (js ''graph TD'' @ [LF] @ js ''A[x]'')) (js ''graph'') \<and>
   fixMermaidCode (js ''graph TD'' @ [LF] @ js ''A[x]'') =
     js ''graph TD'' @ [LF] @ [65, 91, DQUOTE, 120, DQUOTE, 93] \<and>
   fixMermaidCode (fixMermaidCode (js ''graph TD'' @ [LF] @ js ''A[x]'')) =
     fixMermaidCode (js ''graph TD'' @ [LF] @ js ''A[x]'')"
proof -
  have h: "startsWith (header_of (js ''graph TD'' @ [LF] @ js ''A[x]'')) (js ''graph'')"
    unfolding example_graph_header by (simp add: startsWith_def js_def)
  have a: "fixMermaidCode (js ''graph TD'' @ [LF] @ js ''A[x]'') =
          fix_flowchart (split_lines (js ''graph TD'' @ [LF] @ js ''A[x]''))"
    and b: "fixMermaidCode (fixMermaidCode (js ''graph TD'' @ [LF] @ js ''A[x]'')) =
          fixMermaidCode (js ''graph TD'' @ [LF] @ js ''A[x]'')"
    using flowchart_label_rule_idempotent [of "js ''graph TD'' @ [LF] @ js ''A[x]''"]
      example_graph_normal h
    by blast+
  have a': "fixMermaidCode (js ''graph TD'' @ [LF] @ js ''A[x]'') =
     js ''graph TD'' @ [LF] @ [65, 91, DQUOTE, 120, DQUOTE, 93]"
    using a unfolding example_graph_lines example_graph_fixed .
  show ?thesis
    using example_graph_normal h a' b by blast
qed

text \<open>
  Claim C9 as stated fails: a line other than the header that contains the word
  \<open>graph\<close> (or \<open>flowchart\<close>) is returned as it is, its label is not quoted.
\<close>

theorem flowchart_line_with_graph_counterexample:
  "startsWith (header_of (normalize_environment (js ''flowchart TD'' @ [LF] @ js ''A[graph]'')))
     (js ''flowchart'') \<and>
   split_lines (normalize_environment (js ''flowchart TD'' @ [LF] @ js ''A[graph]'')) ! 1 =
     js ''A[graph]'' \<and>
   split_lines (fixMermaidCode (js ''flowchart TD'' @ [LF] @ js ''A[graph]'')) ! 1 = js ''A[graph]'' \<and>
   quote_labels (js ''A[graph]'') = [65, 91, DQUOTE] @ js ''graph'' @ [DQUOTE, 93] \<and>
   split_lines (fixMermaidCode (js ''flowchart TD'' @ [LF] @ js ''A[graph]'')) ! 1 \<noteq>
     quote_labels (js ''A[graph]'')"
proof -
  let ?ex = "js ''flowchart TD'' @ [LF] @ js ''A[graph]''"
  have n: "normalize_environment ?ex = ?ex"
    by (simp add: normalize_environment_def match_literal_def trim_def is_white_space_def js_def
        replace_global.simps)
  have l: "split_lines ?ex = [js ''flowchart TD'', js ''A[graph]'']"
    by (rule split_lines_two) (simp_all add: js_def)
  have h: "header_of ?ex = js ''flowchart TD''"
    by (subst header_of_two) (simp_all add: js_def trim_def is_white_space_def)
  have hs: "startsWith (js ''flowchart TD'') (js ''flowchart'')"
    by (simp add: startsWith_def js_def)
  have f1: "fix_flowchart_line (js ''flowchart TD'') = js ''flowchart TD''"
    by (simp add: fix_flowchart_line_def str_includes_def js_def sublist_Cons_right)
  have f2: "fix_flowchart_line (js ''A[graph]'') = js ''A[graph]''"
    by (simp add: fix_flowchart_line_def str_includes_def js_def sublist_Cons_right)
  have hn: "startsWith (header_of (normalize_environment ?ex)) (js ''flowchart'')"
    by (simp only: n h hs)
  then have "fixMermaidCode ?ex = fix_flowchart (split_lines (normalize_environment ?ex))"
    using fixMermaidCode_flowchart [of ?ex] by blast
  then have fm: "fixMermaidCode ?ex = fix_flowchart (split_lines ?ex)"
    by (simp only: n)
  have "split_lines (fixMermaidCode ?ex) = map fix_flowchart_line (split_lines ?ex)"
    by (simp only: fm split_lines_fix_flowchart)
  then have "split_lines (fixMermaidCode ?ex) =
          map fix_flowchart_line [js ''flowchart TD'', js ''A[graph]'']"
    by (simp only: l)
  then have sl: "split_lines (fixMermaidCode ?ex) = [js ''flowchart TD'', js ''A[graph]'']"
    by (simp only: list.map f1 f2)
  have q: "quote_labels (js ''A[graph]'') = [65, 91, DQUOTE] @ js ''graph'' @ [DQUOTE, 93]"
    by (simp add: quote_labels_def replace_global.simps match_label_def is_line_terminator_def js_def)
  have ne: "js ''A[graph]'' \<noteq> [65, 91, DQUOTE] @ js ''graph'' @ [DQUOTE, 93]"
    by (simp add: js_def)
  have i1: "[js ''flowchart TD'', js ''A[graph]''] ! 1 = js ''A[graph]''"
    by simp
  show ?thesis
    using hn ne by (simp only: n l sl q i1 simp_thms)
qed

text \<open>
  Claim C9, amended. For every input whose first line (after step 1) begins a flowchart
  or a graph, the output has the lines of the normalized input, in order: a line that
  contains \<open>flowchart\<close> or \<open>graph\<close> anywhere is left as it is, the header among
  them, and every other line has its bracket, parenthesis and brace labels quoted.
\<close>

theorem flowchart_lines_normalized:
  assumes "startsWith (header_of (normalize_environment code)) (js ''flowchart'') \<or>
           startsWith (header_of (normalize_environment code)) (js ''graph'')"
  shows "split_lines (fixMermaidCode code) =
           map (\<lambda>line. if str_includes line (js ''flowchart'') \<or> str_includes line (js ''graph'')
                        then line else quote_labels line)
               (split_lines (normalize_environment code)) \<and>
         hd (split_lines (fixMermaidCode code)) = hd (split_lines (normalize_environment code))"
proof -
  let ?lines = "split_lines (normalize_environment code)"
  have f: "fix_flowchart_line = (\<lambda>line. if str_includes line (js ''flowchart'') \<or>
      str_includes line (js ''graph'') then line else quote_labels line)"
    by (rule ext) (simp add: fix_flowchart_line_def)
  have 1: "split_lines (fixMermaidCode code) = map fix_flowchart_line ?lines"
    using fixMermaidCode_flowchart [OF assms] split_lines_fix_flowchart by simp
  obtain l ls where e: "?lines = l # ls" by (cases ?lines) auto
  have "fix_flowchart_line l = l"
    using assms e header_line_kept [of l] unfolding header_of_def by auto
  then have "hd (map fix_flowchart_line ?lines) = hd ?lines" using e by simp
  then show ?thesis using 1 f by simp
qed

text \<open>A witness of C9 (amended).\<close>

theorem flowchart_lines_normalized_witness:
  "split_lines (fixMermaidCode (js ''graph TD'' @ [LF] @ js ''A[x]'')) =
     [js ''graph TD'', [65, 91, DQUOTE, 120, DQUOTE, 93]]"
proof -
  let ?ex = "js ''graph TD'' @ [LF] @ js ''A[x]''"
  have n: "normalize_environment ?ex = ?ex"
    using example_graph_normal by (rule normalize_environment_id)
  have h: "startsWith (header_of ?ex) (js ''graph'')"
    unfolding example_graph_header by (simp add: startsWith_def js_def)
  have i: "\<not> str_includes (js ''A[x]'') (js ''flowchart'')" "\<not> str_includes (js ''A[x]'') (js ''graph'')"
    "str_includes (js ''graph TD'') (js ''graph'')"
    by (simp_all add: str_includes_def js_def sublist_Cons_right)
  show ?thesis
    using flowchart_lines_normalized [of ?ex] h
    unfolding n example_graph_lines
    by (simp add: i example_label)
qed



subsection \<open>A text that a global replacement leaves in place\<close>

lemma span_keep:
  "y \<noteq> [] \<Longrightarrow> \<not> P (hd y) \<Longrightarrow>
   takeWhile P (u @ y) = takeWhile P u \<and> dropWhile P (u @ y) = dropWhile P u @ y"
  by (induction u) (auto simp add: neq_Nil_conv)

lemma span_all:
  "\<forall>x\<in>set u. P x \<Longrightarrow>
   takeWhile P (u @ y) = u @ takeWhile P y \<and> dropWhile P (u @ y) = dropWhile P y"
  by (induction u) auto

lemma span_some:
  "\<exists>x\<in>set u. \<not> P x \<Longrightarrow>
   takeWhile P (u @ y) = takeWhile P u \<and> dropWhile P (u @ y) = dropWhile P u @ y \<and>
   dropWhile P u \<noteq> []"
  by (induction u) auto

lemma span_length: "length (takeWhile P u) + length (dropWhile P u) = length u"
  by (metis length_append takeWhile_dropWhile_id)

text \<open>
  When every match that starts in \<open>a\<close> ends in \<open>a\<close>, the scan of \<open>a @ x\<close> reaches the
  start of \<open>x\<close>.
\<close>

lemma replace_global_boundary:
  assumes "\<And>a1 a2 r n. a = a1 @ a2 \<Longrightarrow> a2 \<noteq> [] \<Longrightarrow> m (a2 @ x) = Some (r, n) \<Longrightarrow>
             0 < n \<and> n \<le> length a2"
  shows "\<exists>a'. replace_global m (a @ x) = a' @ replace_global m x"
  using assms
proof (induction "length a" arbitrary: a rule: less_induct)
  case less
  show ?case
  proof (cases a)
    case Nil
    then show ?thesis by simp
  next
    case (Cons c cs)
    have ih: "\<exists>a'. replace_global m (t @ x) = a' @ replace_global m x" if suf: "suffix t cs" for t
    proof (rule less.hyps)
      show "length t < length a" using suf Cons suffix_length_le by fastforce
    next
      fix a1 a2 r n
      assume "t = a1 @ a2" "a2 \<noteq> []" "m (a2 @ x) = Some (r, n)"
      moreover obtain p where "cs = p @ t" using suf by (auto simp add: suffix_def)
      ultimately show "0 < n \<and> n \<le> length a2"
        using less.prems [of "c # p @ a1" a2 r n] Cons by simp
    qed
    show ?thesis
    proof (cases "m (a @ x)")
      case None
      then have "replace_global m (a @ x) = c # replace_global m (cs @ x)"
        using Cons by (simp add: replace_global.simps)
      then show ?thesis using ih [of cs] by auto
    next
      case (Some p)
      obtain r n where p: "p = (r, n)" by (cases p)
      have n: "0 < n \<and> n \<le> length a"
        using less.prems [of "[]" a r n] Some p Cons by simp
      then have "drop (n - 1) (cs @ x) = drop (n - 1) cs @ x" using Cons by simp
      then have "replace_global m (a @ x) = r @ replace_global m (drop (n - 1) cs @ x)"
        using Some p Cons by (simp add: replace_global.simps)
      then show ?thesis using ih [of "drop (n - 1) cs"] by (auto simp add: suffix_drop)
    qed
  qed
qed

text \<open>When no match starts in \<open>occ\<close>, the scan copies it.\<close>

lemma replace_global_copy:
  assumes "\<And>o1 o2. occ = o1 @ o2 \<Longrightarrow> o2 \<noteq> [] \<Longrightarrow> m (o2 @ b) = None"
  shows "replace_global m (occ @ b) = occ @ replace_global m b"
  using assms
proof (induction occ)
  case Nil
  then show ?case by simp
next
  case (Cons c cs)
  have "m ((c # cs) @ b) = None" using Cons.prems [of "[]" "c # cs"] by simp
  moreover have "replace_global m (cs @ b) = cs @ replace_global m b"
  proof (rule Cons.IH)
    fix o1 o2 assume "cs = o1 @ o2" "o2 \<noteq> []"
    then show "m (o2 @ b) = None" using Cons.prems [of "c # o1" o2] by simp
  qed
  ultimately show ?case by (simp add: replace_global.simps)
qed

lemma replace_global_keeps_sublist:
  assumes "sublist occ s"
    and "\<And>a2 b r n. a2 \<noteq> [] \<Longrightarrow> m (a2 @ occ @ b) = Some (r, n) \<Longrightarrow> 0 < n \<and> n \<le> length a2"
    and "\<And>o2 b. o2 \<noteq> [] \<Longrightarrow> suffix o2 occ \<Longrightarrow> m (o2 @ b) = None"
  shows "sublist occ (replace_global m s)"
proof -
  obtain a b where s: "s = a @ occ @ b" using assms(1) by (auto simp add: sublist_def)
  obtain a' where "replace_global m (a @ occ @ b) = a' @ replace_global m (occ @ b)"
    using replace_global_boundary [of a m "occ @ b"] assms(2) by blast
  moreover have "replace_global m (occ @ b) = occ @ replace_global m b"
    by (rule replace_global_copy) (simp add: assms(3) suffix_def)
  ultimately show ?thesis using s by (simp add: sublist_def) blast
qed

subsection \<open>Step 1 keeps the declaration of an enum\<close>

lemma literal_no_straddle:
  assumes "\<forall>t\<in>set (suffixes (tl pat)). t \<noteq> [] \<longrightarrow> \<not> prefix (take 2 t) [o1, o2]"
    and "a2 \<noteq> []" and "prefix pat (a2 @ o1 # o2 # rest)"
  shows "length pat \<le> length a2"
proof (rule ccontr)
  assume "\<not> length pat \<le> length a2"
  then have l: "length a2 < length pat" by simp
  from assms(3) obtain z where z: "a2 @ o1 # o2 # rest = pat @ z" by (auto simp add: prefix_def)
  define t where "t = drop (length a2) pat"
  have pat: "pat = a2 @ t"
    using z l unfolding t_def
    by (metis append_eq_append_conv_if append_take_drop_id less_imp_le_nat)
  then have tz: "o1 # o2 # rest = t @ z" using z by simp
  have "t \<noteq> []" using l t_def by simp
  moreover have "suffix t (tl pat)"
    using pat assms(2) by (cases a2) (auto simp add: suffix_def)
  moreover have "prefix (take 2 t) [o1, o2]"
  proof -
    have "take 2 t = take 2 (take (length t) (o1 # o2 # rest))" using tz by simp
    also have "\<dots> = take (min 2 (length t)) (o1 # o2 # rest)" by (simp add: min.commute)
    finally have "take 2 t = take (min 2 (length t)) [o1, o2]"
      by (cases "length t"; cases "length t - 1"; simp add: take_Suc_Cons min_def)
    then show ?thesis by (metis take_is_prefix)
  qed
  ultimately show False using assms(1) by (auto simp add: in_set_suffixes)
qed

lemma literal_keeps_sublist:
  assumes "sublist (o1 # o2 # occ) s" and "pat \<noteq> []" and "hd pat \<notin> set (o1 # o2 # occ)"
    and "\<forall>t\<in>set (suffixes (tl pat)). t \<noteq> [] \<longrightarrow> \<not> prefix (take 2 t) [o1, o2]"
  shows "sublist (o1 # o2 # occ) (replace_global (match_literal pat rep) s)"
proof (rule replace_global_keeps_sublist [OF assms(1)])
  fix a2 b r n
  assume a: "a2 \<noteq> []" "match_literal pat rep (a2 @ (o1 # o2 # occ) @ b) = Some (r, n)"
  then have "prefix pat (a2 @ o1 # o2 # occ @ b)" and n: "n = length pat"
    by (auto simp add: match_literal_def split: if_splits)
  then have "length pat \<le> length a2"
    using literal_no_straddle [OF assms(4) a(1)] by blast
  then show "0 < n \<and> n \<le> length a2" using n assms(2) by simp
next
  fix o2' b
  assume a: "o2' \<noteq> []" "suffix o2' (o1 # o2 # occ)"
  then have "hd o2' \<in> set (o1 # o2 # occ)"
    by (metis hd_in_set set_mono_suffix subsetD)
  then have "\<not> prefix pat (o2' @ b)"
    using assms(2,3) a(1) by (cases pat; cases o2') auto
  then show "match_literal pat rep (o2' @ b) = None" by (simp add: match_literal_def)
qed

lemma trim_keeps_sublist:
  assumes "sublist occ s" and "occ \<noteq> []" and "\<not> is_white_space (hd occ)"
    and "\<not> is_white_space (last occ)"
  shows "sublist occ (trim s)"
proof -
  obtain a b where s: "s = a @ occ @ b" using assms(1) by (auto simp add: sublist_def)
  have 1: "dropWhile is_white_space (a @ occ @ b) = dropWhile is_white_space a @ occ @ b"
    using span_keep [of "occ @ b" is_white_space a] assms(2,3) by simp
  have "rev (dropWhile is_white_space a @ occ @ b) = rev b @ rev occ @ rev (dropWhile is_white_space a)"
    by simp
  moreover have "dropWhile is_white_space (rev b @ rev occ @ rev (dropWhile is_white_space a)) =
        dropWhile is_white_space (rev b) @ rev occ @ rev (dropWhile is_white_space a)"
    using span_keep [of "rev occ @ rev (dropWhile is_white_space a)" is_white_space "rev b"] assms(2,4)
    by (simp add: hd_rev)
  ultimately have "trim s = dropWhile is_white_space a @ occ @ rev (dropWhile is_white_space (rev b))"
    unfolding trim_def s 1 by simp
  then show ?thesis by (metis sublist_appendI)
qed



lemma is_word_facts:
  "is_word c \<Longrightarrow> \<not> is_white_space c"
  "is_word c \<Longrightarrow> \<not> is_line_terminator c"
  "is_word c \<Longrightarrow> c \<noteq> 92 \<and> c \<noteq> 13 \<and> c \<noteq> 160 \<and> c \<noteq> 96 \<and> c \<noteq> 123 \<and> c \<noteq> 45 \<and> c \<noteq> 62 \<and>
     c \<noteq> 43 \<and> c \<noteq> 35 \<and> c \<noteq> 126 \<and> c \<noteq> 32 \<and> c \<noteq> LF \<and> c \<noteq> 60"
  by (auto simp add: is_word_def is_white_space_def is_line_terminator_def)

lemma enum_declaration_Cons:
  "enum_declaration name = 101 # 110 # 117 # 109 # 32 # name @ [32, 123]"
  by (simp add: enum_declaration_def js_def)

lemma enum_declaration_set:
  assumes "\<forall>c\<in>set name. is_word c"
  shows "c \<in> set (enum_declaration name) \<Longrightarrow> c \<noteq> 92 \<and> c \<noteq> 13 \<and> c \<noteq> 160 \<and> c \<noteq> 96"
  using assms is_word_facts(3) by (auto simp add: enum_declaration_Cons)

lemma normalize_keeps_enum_declaration:
  assumes w: "\<forall>c\<in>set name. is_word c"
    and s: "sublist (enum_declaration name) code"
  shows "sublist (enum_declaration name) (normalize_environment code)"
proof -
  let ?occ = "117 # 109 # 32 # name @ [32, 123]"
  have e: "enum_declaration name = 101 # 110 # ?occ" by (simp add: enum_declaration_Cons)
  have notin: "x \<notin> set (101 # 110 # ?occ)" if "x = 92 \<or> x = 13 \<or> x = 160 \<or> x = 96" for x
    using enum_declaration_set [OF w, of x] that unfolding e by auto
  have step: "sublist (101 # 110 # ?occ) (replace_global (match_literal pat rep) t)"
    if "sublist (101 # 110 # ?occ) t" "pat \<noteq> []" "hd pat = 92 \<or> hd pat = 13 \<or> hd pat = 160 \<or> hd pat = 96"
      "\<forall>t\<in>set (suffixes (tl pat)). t \<noteq> [] \<longrightarrow> \<not> prefix (take 2 t) [101, 110]"
    for pat rep t
    using literal_keeps_sublist [OF that(1,2) _ that(4)] notin [OF that(3)] by blast
  have 1: "sublist (101 # 110 # ?occ) (replace_global (match_literal [92, 110] [LF]) code)"
    using s unfolding e by (rule step) simp_all
  have 2: "sublist (101 # 110 # ?occ)
      (replace_global (match_literal [13, 10] [LF]) (replace_global (match_literal [92, 110] [LF]) code))"
    using 1 by (rule step) simp_all
  have 3: "sublist (101 # 110 # ?occ)
      (replace_global (match_literal [160] [32])
        (replace_global (match_literal [13, 10] [LF]) (replace_global (match_literal [92, 110] [LF]) code)))"
    using 2 by (rule step) simp_all
  have 4: "sublist (101 # 110 # ?occ)
      (replace_global (match_literal ([96, 96, 96] @ js ''mermaid'') [])
        (replace_global (match_literal [160] [32])
          (replace_global (match_literal [13, 10] [LF]) (replace_global (match_literal [92, 110] [LF]) code))))"
    using 3 by (rule step) (simp_all add: js_def)
  have 5: "sublist (101 # 110 # ?occ)
      (replace_global (match_literal [96, 96, 96] [])
        (replace_global (match_literal ([96, 96, 96] @ js ''mermaid'') [])
          (replace_global (match_literal [160] [32])
            (replace_global (match_literal [13, 10] [LF]) (replace_global (match_literal [92, 110] [LF]) code)))))"
    using 4 by (rule step) simp_all
  have "sublist (101 # 110 # ?occ) (normalize_environment code)"
    unfolding normalize_environment_def
    using 5 by (intro trim_keeps_sublist) (simp_all add: is_white_space_def)
  then show ?thesis unfolding e .
qed



subsection \<open>The enum rule rewrites the declaration\<close>

lemma match_enum_at_declaration:
  assumes "name \<noteq> []" and w: "\<forall>c\<in>set name. is_word c"
  shows "match_enum (enum_declaration name @ b) =
           Some (class_declaration name, length (enum_declaration name))"
proof -
  obtain n0 name' where n: "name = n0 # name'" using assms(1) by (cases name) auto
  have n0: "\<not> is_white_space n0" using w n is_word_facts(1) by simp
  have sp: "is_white_space 32" "\<not> is_word 32" "\<not> is_white_space 123"
    by (simp_all add: is_white_space_def is_word_def)
  let ?r1 = "32 # name @ 32 # 123 # b"
  have r1: "drop 4 (enum_declaration name @ b) = ?r1"
    by (simp add: enum_declaration_Cons)
  have ws1: "takeWhile is_white_space ?r1 = [32]" "dropWhile is_white_space ?r1 = name @ 32 # 123 # b"
    using n n0 sp by simp_all
  have nm: "takeWhile is_word (name @ 32 # 123 # b) = name"
    "dropWhile is_word (name @ 32 # 123 # b) = 32 # 123 # b"
    using span_all [of name is_word "32 # 123 # b"] w sp by simp_all
  have ws2: "takeWhile is_white_space (32 # 123 # b) = [32]"
    "dropWhile is_white_space (32 # 123 # b) = 123 # b"
    using sp by simp_all
  have p: "prefix (js ''enum'') (enum_declaration name @ b)"
    by (simp add: enum_declaration_Cons js_def)
  show ?thesis
    unfolding match_enum_def Let_def r1 ws1 nm ws2
    using p assms(1) by (simp add: class_declaration_def enum_declaration_Cons)
qed

lemma match_enum_before_declaration:
  assumes "name \<noteq> []" and w: "\<forall>c\<in>set name. is_word c"
    and a2: "a2 \<noteq> []"
    and m: "match_enum (a2 @ enum_declaration name @ b) = Some (r, n)"
  shows "0 < n \<and> n \<le> length a2"
proof -
  let ?y = "enum_declaration name @ b"
  obtain n0 name' where n: "name = n0 # name'" using assms(1) by (cases name) auto
  have n0: "is_word n0" "\<not> is_white_space n0" "n0 \<noteq> 123" using w n is_word_facts by auto
  have y: "?y = 101 # 110 # 117 # 109 # 32 # name @ 32 # 123 # b"
    by (simp add: enum_declaration_Cons)
  have ynil: "?y \<noteq> []" and hdy: "hd ?y = 101" using y by simp_all
  have e: "is_word 101" "\<not> is_white_space 101" "is_word 110" "is_word 117" "is_word 109"
    "\<not> is_word 32" "is_white_space 32"
    by (simp_all add: is_word_def is_white_space_def)
  from m have p: "prefix (js ''enum'') (a2 @ ?y)"
    by (auto simp add: match_enum_def split: if_splits)
  have len4: "4 \<le> length a2"
  proof (rule ccontr)
    assume "\<not> 4 \<le> length a2"
    moreover have "0 < length a2" using a2 by simp
    ultimately have "length a2 = 1 \<or> length a2 = 2 \<or> length a2 = 3" by arith
    then consider "length a2 = 1" | "length a2 = 2" | "length a2 = 3" by blast
    then show False
    proof cases
      case 1
      then obtain x1 where "a2 = [x1]" by (cases a2) auto
      then show ?thesis using p y by (simp add: js_def)
    next
      case 2
      then obtain x1 x2 where "a2 = [x1, x2]" by (cases a2; cases "tl a2") auto
      then show ?thesis using p y by (simp add: js_def)
    next
      case 3
      then obtain x1 x2 x3 where "a2 = [x1, x2, x3]"
        by (cases a2; cases "tl a2"; cases "tl (tl a2)") auto
      then show ?thesis using p y by (simp add: js_def)
    qed
  qed
  define u0 where "u0 = drop 4 a2"
  have r1: "drop 4 (a2 @ ?y) = u0 @ ?y" using len4 u0_def by simp
  define u1 where "u1 = dropWhile is_white_space u0"
  have ws1: "takeWhile is_white_space (u0 @ ?y) = takeWhile is_white_space u0"
    "dropWhile is_white_space (u0 @ ?y) = u1 @ ?y"
    using span_keep [OF ynil, of is_white_space u0] hdy e u1_def by simp_all
  have nonword: "\<exists>x\<in>set u1. \<not> is_word x"
  proof (rule ccontr)
    assume "\<not> (\<exists>x\<in>set u1. \<not> is_word x)"
    then have all: "\<forall>x\<in>set u1. is_word x" by simp
    have ty: "takeWhile is_word ?y = [101, 110, 117, 109]"
      "dropWhile is_word ?y = 32 # name @ 32 # 123 # b"
      unfolding y using e by simp_all
    have nm: "takeWhile is_word (u1 @ ?y) = u1 @ [101, 110, 117, 109]"
      "dropWhile is_word (u1 @ ?y) = 32 # name @ 32 # 123 # b"
      using span_all [OF all, of ?y] ty by simp_all
    have ws2: "dropWhile is_white_space (32 # name @ 32 # 123 # b) = name @ 32 # 123 # b"
      using e n n0 by simp
    have "\<not> prefix [123] (name @ 32 # 123 # b)" using n n0 by simp
    then have "match_enum (a2 @ ?y) = None"
      unfolding match_enum_def Let_def r1 ws1 nm ws2 by simp
    then show False using m by simp
  qed
  define u2 where "u2 = dropWhile is_word u1"
  have nm: "takeWhile is_word (u1 @ ?y) = takeWhile is_word u1"
    "dropWhile is_word (u1 @ ?y) = u2 @ ?y"
    using span_some [OF nonword, of ?y] u2_def by simp_all
  define u3 where "u3 = dropWhile is_white_space u2"
  have ws2: "takeWhile is_white_space (u2 @ ?y) = takeWhile is_white_space u2"
    "dropWhile is_white_space (u2 @ ?y) = u3 @ ?y"
    using span_keep [OF ynil, of is_white_space u2] hdy e u3_def by simp_all
  from m have res: "prefix [123] (u3 @ ?y)"
    and nn: "n = 4 + length (takeWhile is_white_space u0) + length (takeWhile is_word u1) +
                 length (takeWhile is_white_space u2) + 1"
    unfolding match_enum_def Let_def r1 ws1 nm ws2 by (auto split: if_splits)
  have "u3 \<noteq> []" using res y by (cases u3) auto
  then have l3: "1 \<le> length u3" by (cases u3) auto
  have "length a2 = 4 + length u0" using len4 u0_def by simp
  also have "\<dots> = 4 + length (takeWhile is_white_space u0) + length u1"
    using span_length [of is_white_space u0] u1_def by simp
  also have "\<dots> = 4 + length (takeWhile is_white_space u0) + length (takeWhile is_word u1) + length u2"
    using span_length [of is_word u1] u2_def by simp
  also have "\<dots> = 4 + length (takeWhile is_white_space u0) + length (takeWhile is_word u1) +
      length (takeWhile is_white_space u2) + length u3"
    using span_length [of is_white_space u2] u3_def by simp
  finally show ?thesis using nn l3 by simp
qed

lemma enum_rule_rewrites_declaration:
  assumes "name \<noteq> []" and w: "\<forall>c\<in>set name. is_word c"
    and s: "sublist (enum_declaration name) s"
  shows "sublist (class_declaration name) (replace_global match_enum s)"
proof -
  obtain a b where ab: "s = a @ enum_declaration name @ b" using s by (auto simp add: sublist_def)
  obtain a' where "replace_global match_enum (a @ enum_declaration name @ b) =
      a' @ replace_global match_enum (enum_declaration name @ b)"
    using replace_global_boundary [of a match_enum "enum_declaration name @ b"]
      match_enum_before_declaration [OF assms(1,2)] by blast
  moreover have "replace_global match_enum (enum_declaration name @ b) =
      class_declaration name @ replace_global match_enum b"
  proof -
    have "enum_declaration name @ b = 101 # (110 # 117 # 109 # 32 # name @ [32, 123]) @ b"
      by (simp add: enum_declaration_Cons)
    moreover have "drop (length (enum_declaration name) - 1) ((110 # 117 # 109 # 32 # name @ [32, 123]) @ b) = b"
      by (simp add: enum_declaration_Cons)
    ultimately show ?thesis
      using match_enum_at_declaration [OF assms(1,2), of b]
      by (simp add: replace_global.simps)
  qed
  ultimately show ?thesis using ab by (simp add: sublist_def) blast
qed



subsection \<open>The arrow rule keeps the class declaration\<close>

text \<open>
  A word \<open>k\<close> before \<open>x\<close>: a match that starts before \<open>k\<close> ends before \<open>k\<close>, or it ends
  with \<open>k\<close> and its replacement ends with \<open>k\<close>; no match starts in \<open>k\<close>.
\<close>

lemma replace_global_word_boundary:
  assumes p1: "\<And>a2 r n. a2 \<noteq> [] \<Longrightarrow> m (a2 @ k @ x) = Some (r, n) \<Longrightarrow>
             0 < n \<and> (n \<le> length a2 \<or> (n = length a2 + length k \<and> (\<exists>r'. r = r' @ k)))"
    and p2: "\<And>k1 k2. k = k1 @ k2 \<Longrightarrow> k2 \<noteq> [] \<Longrightarrow> m (k2 @ x) = None"
  shows "\<exists>a'. replace_global m (a @ k @ x) = a' @ k @ replace_global m x"
proof (induction "length a" arbitrary: a rule: less_induct)
  case less
  show ?case
  proof (cases a)
    case Nil
    have "replace_global m (k @ x) = k @ replace_global m x"
      using replace_global_copy [of k m x] p2 by blast
    then show ?thesis using Nil by simp
  next
    case (Cons c cs)
    show ?thesis
    proof (cases "m (a @ k @ x)")
      case None
      then have "replace_global m (a @ k @ x) = c # replace_global m (cs @ k @ x)"
        using Cons by (simp add: replace_global.simps)
      moreover have "length cs < length a" using Cons by simp
      then obtain a' where "replace_global m (cs @ k @ x) = a' @ k @ replace_global m x"
        using less [of cs] by blast
      ultimately show ?thesis by simp
    next
      case (Some p)
      obtain r n where p: "p = (r, n)" by (cases p)
      have n: "0 < n \<and> (n \<le> length a \<or> (n = length a + length k \<and> (\<exists>r'. r = r' @ k)))"
        using p1 [of a r n] Some p Cons by simp
      have rg: "replace_global m (a @ k @ x) = r @ replace_global m (drop (n - 1) (cs @ k @ x))"
        using Some p Cons by (simp add: replace_global.simps)
      from n show ?thesis
      proof (elim conjE disjE)
        assume "0 < n" "n \<le> length a"
        then have "drop (n - 1) (cs @ k @ x) = drop (n - 1) cs @ k @ x" using Cons by simp
        moreover have "length (drop (n - 1) cs) < length a" using Cons by simp
        then obtain a' where
          "replace_global m (drop (n - 1) cs @ k @ x) = a' @ k @ replace_global m x"
          using less [of "drop (n - 1) cs"] by blast
        ultimately show ?thesis using rg by simp
      next
        assume "0 < n" "n = length a + length k" "\<exists>r'. r = r' @ k"
        then obtain r' where "r = r' @ k" by blast
        moreover have "drop (n - 1) (cs @ k @ x) = x"
          using \<open>n = length a + length k\<close> Cons by simp
        ultimately show ?thesis using rg by simp
      qed
    qed
  qed
qed

lemma match_arrow_nonword: "\<not> is_word c \<Longrightarrow> match_arrow (c # s) = None"
  by (simp add: match_arrow_def)

lemma match_arrow_word_then_no_arrow:
  assumes "\<forall>c\<in>set w. is_word c" and "x \<noteq> []" and "\<not> is_word (hd x)"
    and "\<not> prefix (js ''->'') (dropWhile is_white_space x)"
  shows "match_arrow (w @ x) = None"
proof -
  have "takeWhile is_word x = []" "dropWhile is_word x = x"
    using assms(2,3) by (cases x; simp)+
  then have "dropWhile is_word (w @ x) = x"
    using span_all [OF assms(1), of x] by simp
  then show ?thesis using assms(4) by (simp add: match_arrow_def Let_def)
qed

lemma replace_arrow_word_then_no_arrow:
  assumes "\<forall>c\<in>set w. is_word c" and "x \<noteq> []" and "\<not> is_word (hd x)"
    and "\<not> prefix (js ''->'') (dropWhile is_white_space x)"
  shows "replace_global match_arrow (w @ x) = w @ replace_global match_arrow x"
proof (rule replace_global_copy)
  fix o1 o2 assume "w = o1 @ o2" "o2 \<noteq> []"
  then have "\<forall>c\<in>set o2. is_word c" using assms(1) by simp
  then show "match_arrow (o2 @ x) = None"
    by (rule match_arrow_word_then_no_arrow [OF _ assms(2,3,4)])
qed

lemma replace_arrow_nonword:
  "\<not> is_word c \<Longrightarrow> replace_global match_arrow (c # s) = c # replace_global match_arrow s"
  by (simp add: replace_global.simps match_arrow_nonword)

lemma match_arrow_before_word:
  assumes k: "k \<noteq> []" "\<forall>c\<in>set k. is_word c"
    and x: "x = 32 # x1 # x'" "is_word x1"
    and a2: "a2 \<noteq> []"
    and m: "match_arrow (a2 @ k @ x) = Some (r, n)"
  shows "0 < n \<and> (n \<le> length a2 \<or> (n = length a2 + length k \<and> (\<exists>r'. r = r' @ k)))"
proof -
  let ?y = "k @ x"
  obtain k0 k' where kc: "k = k0 # k'" using k(1) by (cases k) auto
  have k0: "is_word k0" "\<not> is_white_space k0" "k0 \<noteq> 45" using k(2) kc is_word_facts by auto
  have x1: "\<not> is_white_space x1" "x1 \<noteq> 45" using x(2) is_word_facts by auto
  have sp: "\<not> is_word 32" "is_white_space 32" by (simp_all add: is_word_def is_white_space_def)
  have ynil: "?y \<noteq> []" and hdy: "hd ?y = k0" using kc by simp_all
  have ty: "takeWhile is_word ?y = k" "dropWhile is_word ?y = x"
    using span_all [OF k(2), of x] x(1) sp by simp_all
  have nonword: "\<exists>c\<in>set a2. \<not> is_word c"
  proof (rule ccontr)
    assume "\<not> (\<exists>c\<in>set a2. \<not> is_word c)"
    then have all: "\<forall>c\<in>set a2. is_word c" by simp
    have "dropWhile is_word (a2 @ ?y) = x"
      using span_all [OF all, of ?y] ty by simp
    moreover have "dropWhile is_white_space x = x1 # x'" using x(1) sp x1 by simp
    moreover have "\<not> prefix (js ''->'') (x1 # x')" using x1 by (simp add: js_def)
    ultimately have "match_arrow (a2 @ ?y) = None" by (simp add: match_arrow_def Let_def)
    then show False using m by simp
  qed
  define w1 where "w1 = takeWhile is_word a2"
  define u1 where "u1 = dropWhile is_word a2"
  have s1: "takeWhile is_word (a2 @ ?y) = w1" "dropWhile is_word (a2 @ ?y) = u1 @ ?y"
    using span_some [OF nonword, of ?y] w1_def u1_def by simp_all
  define ws1 where "ws1 = takeWhile is_white_space u1"
  define u2 where "u2 = dropWhile is_white_space u1"
  have s2: "takeWhile is_white_space (u1 @ ?y) = ws1" "dropWhile is_white_space (u1 @ ?y) = u2 @ ?y"
    using span_keep [OF ynil, of is_white_space u1] hdy k0 ws1_def u2_def by simp_all
  from m have w1n: "w1 \<noteq> []" and pa: "prefix (js ''->'') (u2 @ ?y)"
    unfolding match_arrow_def Let_def s1 s2 by (auto split: if_splits)
  obtain u3 where u2: "u2 = 45 # 62 # u3"
  proof (cases u2)
    case Nil
    then show ?thesis using pa kc k0 by (simp add: js_def)
  next
    case (Cons y ys)
    show ?thesis
    proof (cases ys)
      case Nil
      then show ?thesis using pa Cons kc is_word_facts(3) [OF k0(1)] by (simp add: js_def)
    next
      case c2: (Cons z zs)
      then show ?thesis using pa Cons that by (simp add: js_def)
    qed
  qed
  have s3: "drop 2 (u2 @ ?y) = u3 @ ?y" using u2 by simp
  define ws2 where "ws2 = takeWhile is_white_space u3"
  define u4 where "u4 = dropWhile is_white_space u3"
  have s4: "takeWhile is_white_space (u3 @ ?y) = ws2" "dropWhile is_white_space (u3 @ ?y) = u4 @ ?y"
    using span_keep [OF ynil, of is_white_space u3] hdy k0 ws2_def u4_def by simp_all
  from m pa w1n have res: "takeWhile is_word (u4 @ ?y) \<noteq> []"
    "r = w1 @ js '' --|> '' @ takeWhile is_word (u4 @ ?y)"
    "n = length w1 + length ws1 + 2 + length ws2 + length (takeWhile is_word (u4 @ ?y))"
    unfolding match_arrow_def Let_def s1 s2 s3 s4 by (auto split: if_splits)
  have la: "length a2 = length w1 + length ws1 + 2 + length ws2 + length u4"
    using span_length [of is_word a2] span_length [of is_white_space u1]
      span_length [of is_white_space u3] u2
    unfolding w1_def u1_def ws1_def u2_def ws2_def u4_def by simp
  have pos: "0 < n" using res(3) by simp
  show ?thesis
  proof (cases "\<forall>c\<in>set u4. is_word c")
    case True
    then have "takeWhile is_word (u4 @ ?y) = u4 @ k"
      using span_all [OF True, of ?y] ty by simp
    then have "n = length a2 + length k" "r = (w1 @ js '' --|> '' @ u4) @ k"
      using res la by simp_all
    then show ?thesis using pos by blast
  next
    case False
    then have "takeWhile is_word (u4 @ ?y) = takeWhile is_word u4"
      using span_some [of u4 is_word ?y] by simp
    then have "n \<le> length a2"
      using res(3) la span_length [of is_word u4] by simp
    then show ?thesis using pos by simp
  qed
qed



lemma class_declaration_Cons:
  "class_declaration name @ b =
     [99, 108, 97, 115, 115] @
     32 # name @ 32 # 123 # LF # 32 # 32 # 32 # 32 # 60 # 60 #
       [101, 110, 117, 109, 101, 114, 97, 116, 105, 111, 110] @ 62 # 62 # b"
  by (simp add: class_declaration_def js_def)

lemma word_class: "\<forall>c\<in>set [99, 108, 97, 115, 115]. is_word c"
  by (simp add: is_word_def)

lemma word_enumeration:
  "\<forall>c\<in>set [101, 110, 117, 109, 101, 114, 97, 116, 105, 111, 110]. is_word c"
  by (simp add: is_word_def)

lemma nonword_chars:
  "\<not> is_word 32" "\<not> is_word 123" "\<not> is_word LF" "\<not> is_word 60" "\<not> is_word 62"
  "is_white_space 32" "\<not> is_white_space 123" "\<not> is_white_space 62" "\<not> is_white_space 60"
  "is_white_space LF"
  by (simp_all add: is_word_def is_white_space_def)

lemma replace_arrow_declaration_tail:
  assumes "name \<noteq> []" and w: "\<forall>c\<in>set name. is_word c"
  shows "replace_global match_arrow
           (32 # name @ 32 # 123 # LF # 32 # 32 # 32 # 32 # 60 # 60 #
              [101, 110, 117, 109, 101, 114, 97, 116, 105, 111, 110] @ 62 # 62 # b) =
         32 # name @ 32 # 123 # LF # 32 # 32 # 32 # 32 # 60 # 60 #
              [101, 110, 117, 109, 101, 114, 97, 116, 105, 111, 110] @ 62 # 62 #
              replace_global match_arrow b"
proof -
  let ?E = "[101, 110, 117, 109, 101, 114, 97, 116, 105, 111, 110]"
  have e: "replace_global match_arrow (?E @ 62 # 62 # b) = ?E @ 62 # 62 # replace_global match_arrow b"
  proof -
    have "replace_global match_arrow (?E @ 62 # 62 # b) = ?E @ replace_global match_arrow (62 # 62 # b)"
      by (rule replace_arrow_word_then_no_arrow [OF word_enumeration])
         (simp_all add: nonword_chars js_def)
    then show ?thesis by (simp add: replace_arrow_nonword nonword_chars)
  qed
  have t: "replace_global match_arrow (32 # 123 # LF # 32 # 32 # 32 # 32 # 60 # 60 # ?E @ 62 # 62 # b) =
      32 # 123 # LF # 32 # 32 # 32 # 32 # 60 # 60 # replace_global match_arrow (?E @ 62 # 62 # b)"
    by (simp only: replace_arrow_nonword nonword_chars not_False_eq_True)
  have "replace_global match_arrow
          (name @ 32 # 123 # LF # 32 # 32 # 32 # 32 # 60 # 60 # ?E @ 62 # 62 # b) =
        name @ replace_global match_arrow (32 # 123 # LF # 32 # 32 # 32 # 32 # 60 # 60 # ?E @ 62 # 62 # b)"
    by (rule replace_arrow_word_then_no_arrow [OF w]) (simp_all add: nonword_chars js_def)
  then show ?thesis
    using e t by (simp add: replace_arrow_nonword nonword_chars)
qed

lemma arrow_rule_keeps_class_declaration:
  assumes "name \<noteq> []" and w: "\<forall>c\<in>set name. is_word c"
    and s: "sublist (class_declaration name) s"
  shows "sublist (class_declaration name) (replace_global match_arrow s)"
proof -
  let ?K = "[99, 108, 97, 115, 115] :: jsstring"
  let ?E = "[101, 110, 117, 109, 101, 114, 97, 116, 105, 111, 110] :: jsstring"
  obtain a b where ab: "s = a @ class_declaration name @ b" using s by (auto simp add: sublist_def)
  obtain n0 name' where n: "name = n0 # name'" using assms(1) by (cases name) auto
  have n0: "is_word n0" using w n by simp
  define x' where "x' = name' @ 32 # 123 # LF # 32 # 32 # 32 # 32 # 60 # 60 # ?E @ 62 # 62 # b"
  define x where "x = 32 # n0 # x'"
  have x: "x = 32 # name @ 32 # 123 # LF # 32 # 32 # 32 # 32 # 60 # 60 # ?E @ 62 # 62 # b"
    using n x_def x'_def by simp
  have cd: "class_declaration name @ b = ?K @ x"
    unfolding x by (rule class_declaration_Cons)
  have "\<exists>a'. replace_global match_arrow (a @ ?K @ x) = a' @ ?K @ replace_global match_arrow x"
  proof (rule replace_global_word_boundary)
    fix a2 r n
    assume "a2 \<noteq> []" "match_arrow (a2 @ ?K @ x) = Some (r, n)"
    then show "0 < n \<and> (n \<le> length a2 \<or> (n = length a2 + length ?K \<and> (\<exists>r'. r = r' @ ?K)))"
      using match_arrow_before_word [OF _ word_class x_def n0, of a2 r n] by simp
  next
    fix k1 k2 :: jsstring
    assume "?K = k1 @ k2" "k2 \<noteq> []"
    then have "\<forall>c\<in>set k2. is_word c"
      using word_class by (metis Un_iff set_append)
    moreover have "\<not> prefix (js ''->'') (dropWhile is_white_space x)"
      using n0 is_word_facts [OF n0] by (simp add: x_def nonword_chars js_def)
    ultimately show "match_arrow (k2 @ x) = None"
      by (intro match_arrow_word_then_no_arrow) (simp_all add: x_def nonword_chars)
  qed
  then obtain a' where
    "replace_global match_arrow (a @ ?K @ x) = a' @ ?K @ replace_global match_arrow x"
    by blast
  moreover have "replace_global match_arrow x =
      32 # name @ 32 # 123 # LF # 32 # 32 # 32 # 32 # 60 # 60 # ?E @ 62 # 62 #
        replace_global match_arrow b"
    unfolding x by (rule replace_arrow_declaration_tail [OF assms(1,2)])
  ultimately have "replace_global match_arrow s =
      a' @ class_declaration name @ replace_global match_arrow b"
    unfolding ab cd
    using class_declaration_Cons [of name "replace_global match_arrow b"] by simp
  then show ?thesis by (metis sublist_appendI)
qed



subsection \<open>The visibility rule keeps the class declaration\<close>

lemma replace_visibility_off_line_start:
  "\<forall>c\<in>set u. \<not> is_line_terminator c \<Longrightarrow>
   replace_visibility False (u @ r) = u @ replace_visibility False r"
  by (induction u) simp_all

lemma replace_visibility_None:
  "(if f then match_visibility (c # cs) else None) = None \<Longrightarrow>
   replace_visibility f (c # cs) = c # replace_visibility (is_line_terminator c) cs"
  by simp

lemma replace_visibility_Some:
  "(if f then match_visibility (c # cs) else None) = Some (r, n) \<Longrightarrow>
   replace_visibility f (c # cs) =
     r @ replace_visibility (is_line_terminator ((c # cs) ! (n - 1))) (drop (n - 1) cs)"
  by simp

declare replace_visibility.simps(2) [simp del]

lemma match_visibility_word: "is_word c \<Longrightarrow> match_visibility (c # s) = None"
  using is_word_facts [of c] by (simp add: match_visibility_def)

lemma match_visibility_before_word:
  assumes k: "k \<noteq> []" "\<forall>c\<in>set k. is_word c"
    and x: "x \<noteq> []" "\<not> is_word (hd x)"
    and a2: "a2 \<noteq> []"
    and m: "match_visibility (a2 @ k @ x) = Some (r, n)"
  shows "0 < n \<and> (n \<le> length a2 \<or> (n = length a2 + length k \<and> (\<exists>r'. r = r' @ k)))"
proof -
  let ?y = "k @ x"
  obtain k0 k' where kc: "k = k0 # k'" using k(1) by (cases k) auto
  have k0: "is_word k0" "\<not> is_white_space k0" "k0 \<noteq> 43 \<and> k0 \<noteq> 45 \<and> k0 \<noteq> 35 \<and> k0 \<noteq> 126"
    using k(2) kc is_word_facts by auto
  have ynil: "?y \<noteq> []" and hdy: "hd ?y = k0" using kc by simp_all
  have ty: "takeWhile is_word ?y = k"
    using span_all [OF k(2), of x] x by (cases x) auto
  define ws where "ws = takeWhile is_white_space a2"
  define u1 where "u1 = dropWhile is_white_space a2"
  have s1: "takeWhile is_white_space (a2 @ ?y) = ws" "dropWhile is_white_space (a2 @ ?y) = u1 @ ?y"
    using span_keep [OF ynil, of is_white_space a2] hdy k0 ws_def u1_def by simp_all
  obtain mk u2 where u1: "u1 = mk # u2"
  proof (cases u1)
    case Nil
    then have "match_visibility (a2 @ ?y) = None"
      unfolding match_visibility_def Let_def s1 using kc k0 by simp
    then show ?thesis using m by simp
  next
    case (Cons mk u2)
    then show ?thesis using that by simp
  qed
  from m have res: "takeWhile is_word (u2 @ ?y) \<noteq> []"
    "r = ws @ [mk, 32] @ takeWhile is_word (u2 @ ?y)"
    "n = length ws + 1 + length (takeWhile is_word (u2 @ ?y))"
    unfolding match_visibility_def Let_def s1 u1 by (auto split: if_splits)
  have la: "length a2 = length ws + 1 + length u2"
    using span_length [of is_white_space a2] u1 unfolding ws_def u1_def by simp
  have pos: "0 < n" using res(3) by simp
  show ?thesis
  proof (cases "\<forall>c\<in>set u2. is_word c")
    case True
    then have "takeWhile is_word (u2 @ ?y) = u2 @ k"
      using span_all [OF True, of ?y] ty by simp
    then have "n = length a2 + length k" "r = (ws @ [mk, 32] @ u2) @ k"
      using res la by simp_all
    then show ?thesis using pos by blast
  next
    case False
    then have "takeWhile is_word (u2 @ ?y) = takeWhile is_word u2"
      using span_some [of u2 is_word ?y] by simp
    then have "n \<le> length a2"
      using res(3) la span_length [of is_word u2] by simp
    then show ?thesis using pos by simp
  qed
qed

lemma replace_visibility_word_boundary:
  assumes k: "k \<noteq> []" "\<forall>c\<in>set k. is_word c"
    and x: "x \<noteq> []" "\<not> is_word (hd x)"
  shows "\<exists>a'. replace_visibility f (a @ k @ x) = a' @ k @ replace_visibility False x"
proof (induction "length a" arbitrary: a f rule: less_induct)
  case less
  obtain k0 k' where kc: "k = k0 # k'" using k(1) by (cases k) auto
  have nlt: "\<forall>c\<in>set k. \<not> is_line_terminator c" using k(2) is_word_facts(2) by blast
  show ?case
  proof (cases a)
    case Nil
    have "(if f then match_visibility (k0 # k' @ x) else None) = None"
      using match_visibility_word [of k0] k(2) kc by simp
    then have "replace_visibility f (k @ x) = k0 # replace_visibility False (k' @ x)"
      using kc nlt replace_visibility_None [of f k0 "k' @ x"] by simp
    also have "\<dots> = k @ replace_visibility False x"
      using replace_visibility_off_line_start [of k' x] nlt kc by simp
    finally show ?thesis using Nil by simp
  next
    case (Cons c cs)
    show ?thesis
    proof (cases "if f then match_visibility (a @ k @ x) else None")
      case None
      then have "replace_visibility f (a @ k @ x) =
          c # replace_visibility (is_line_terminator c) (cs @ k @ x)"
        unfolding Cons using replace_visibility_None [of f c "cs @ k @ x"] by (cases f) auto
      moreover have "length cs < length a" using Cons by simp
      then obtain a' where "replace_visibility (is_line_terminator c) (cs @ k @ x) =
          a' @ k @ replace_visibility False x"
        using less [of cs] by blast
      ultimately show ?thesis by simp
    next
      case (Some p)
      obtain r n where p: "p = (r, n)" by (cases p)
      have mv: "match_visibility (a @ k @ x) = Some (r, n)"
        using Some p by (simp split: if_splits)
      have n: "0 < n \<and> (n \<le> length a \<or> (n = length a + length k \<and> (\<exists>r'. r = r' @ k)))"
        using match_visibility_before_word [OF k x _ mv] Cons by simp
      have rg: "replace_visibility f (a @ k @ x) =
          r @ replace_visibility (is_line_terminator ((a @ k @ x) ! (n - 1)))
                (drop (n - 1) (cs @ k @ x))"
        using Some p unfolding Cons
        using replace_visibility_Some [of f c "cs @ k @ x" r n] by (cases f) auto
      from n show ?thesis
      proof (elim conjE disjE)
        assume "0 < n" "n \<le> length a"
        then have "drop (n - 1) (cs @ k @ x) = drop (n - 1) cs @ k @ x" using Cons by simp
        moreover have "length (drop (n - 1) cs) < length a" using Cons by simp
        then obtain a' where
          "replace_visibility (is_line_terminator ((a @ k @ x) ! (n - 1)))
             (drop (n - 1) cs @ k @ x) = a' @ k @ replace_visibility False x"
          using less [of "drop (n - 1) cs"] by blast
        ultimately show ?thesis using rg by simp
      next
        assume a: "0 < n" "n = length a + length k" "\<exists>r'. r = r' @ k"
        then obtain r' where "r = r' @ k" by blast
        moreover have "drop (n - 1) (cs @ k @ x) = x"
          using a(2) Cons by simp
        moreover have "(a @ k @ x) ! (n - 1) = last k"
        proof -
          obtain j where j: "length k = Suc j" using k(1) by (cases k) auto
          then have "n - 1 = length a + j" using a(2) by simp
          then have "(a @ k @ x) ! (n - 1) = (k @ x) ! j"
            by (simp only: nth_append_length_plus)
          also have "\<dots> = k ! j" using j by (simp add: nth_append)
          finally show ?thesis using k(1) j by (simp add: last_conv_nth)
        qed
        moreover have "\<not> is_line_terminator (last k)" using nlt k(1) last_in_set by blast
        ultimately show ?thesis using rg by simp
      qed
    qed
  qed
qed

lemma replace_visibility_declaration_tail:
  assumes w: "\<forall>c\<in>set name. is_word c"
  shows "replace_visibility False
           (32 # name @ 32 # 123 # LF # 32 # 32 # 32 # 32 # 60 # 60 #
              [101, 110, 117, 109, 101, 114, 97, 116, 105, 111, 110] @ 62 # 62 # b) =
         32 # name @ 32 # 123 # LF # 32 # 32 # 32 # 32 # 60 # 60 #
              [101, 110, 117, 109, 101, 114, 97, 116, 105, 111, 110] @ 62 # 62 #
              replace_visibility False b"
proof -
  let ?E = "[101, 110, 117, 109, 101, 114, 97, 116, 105, 111, 110] :: jsstring"
  let ?t = "32 # 32 # 32 # 60 # 60 # ?E @ [62, 62]"
  have lt: "\<not> is_line_terminator 32" "\<not> is_line_terminator 123" "is_line_terminator LF"
    "\<not> is_line_terminator 60" "\<not> is_line_terminator 62"
    by (simp_all add: is_line_terminator_def)
  have 1: "replace_visibility False ((32 # name @ [32, 123]) @ LF # 32 # ?t @ b) =
        (32 # name @ [32, 123]) @ replace_visibility False (LF # 32 # ?t @ b)"
    by (rule replace_visibility_off_line_start) (use w is_word_facts(2) lt in auto)
  have 2: "replace_visibility False (LF # 32 # ?t @ b) = LF # replace_visibility True (32 # ?t @ b)"
    using lt replace_visibility_None [of False LF "32 # ?t @ b"] by simp
  have "match_visibility (32 # ?t @ b) = None"
    by (simp add: match_visibility_def nonword_chars)
  then have 3: "replace_visibility True (32 # ?t @ b) = 32 # replace_visibility False (?t @ b)"
    using lt replace_visibility_None [of True 32 "?t @ b"] by simp
  have 4: "replace_visibility False (?t @ b) = ?t @ replace_visibility False b"
    by (rule replace_visibility_off_line_start) (use word_enumeration is_word_facts(2) lt in auto)
  show ?thesis using 1 2 3 4 by simp
qed

lemma visibility_rule_keeps_class_declaration:
  assumes "name \<noteq> []" and w: "\<forall>c\<in>set name. is_word c"
    and s: "sublist (class_declaration name) s"
  shows "sublist (class_declaration name) (replace_visibility f s)"
proof -
  let ?K = "[99, 108, 97, 115, 115] :: jsstring"
  let ?E = "[101, 110, 117, 109, 101, 114, 97, 116, 105, 111, 110] :: jsstring"
  obtain a b where ab: "s = a @ class_declaration name @ b" using s by (auto simp add: sublist_def)
  define x where "x = 32 # name @ 32 # 123 # LF # 32 # 32 # 32 # 32 # 60 # 60 # ?E @ 62 # 62 # b"
  have cd: "class_declaration name @ b = ?K @ x"
    unfolding x_def by (rule class_declaration_Cons)
  obtain a' where
    "replace_visibility f (a @ ?K @ x) = a' @ ?K @ replace_visibility False x"
    using replace_visibility_word_boundary [OF _ word_class, of x f a]
    by (auto simp add: x_def nonword_chars)
  moreover have "replace_visibility False x =
      32 # name @ 32 # 123 # LF # 32 # 32 # 32 # 32 # 60 # 60 # ?E @ 62 # 62 #
        replace_visibility False b"
    unfolding x_def by (rule replace_visibility_declaration_tail [OF w])
  ultimately have "replace_visibility f s =
      a' @ class_declaration name @ replace_visibility False b"
    unfolding ab cd
    using class_declaration_Cons [of name "replace_visibility False b"] by simp
  then show ?thesis by (metis sublist_appendI)
qed



subsection \<open>Occurrences of a text\<close>

lemma sublist_avoids:
  assumes "sublist m (a @ c # b)" and "c \<notin> set m"
  shows "sublist m a \<or> sublist m b"
proof -
  from assms(1) consider "sublist m a" | "sublist m (c # b)"
    | m1 m2 where "m = m1 @ m2" "suffix m1 a" "prefix m2 (c # b)"
    unfolding sublist_append by blast
  then show ?thesis
  proof cases
    case 1
    then show ?thesis by simp
  next
    case 2
    then have "prefix m (c # b) \<or> sublist m b" by (simp add: sublist_Cons_right)
    moreover have "m = []" if "prefix m (c # b)"
      using that assms(2) by (cases m) auto
    ultimately show ?thesis by auto
  next
    case 3
    have "m2 = []" using 3(1,3) assms(2) by (cases m2) auto
    then have "suffix m a" using 3 by simp
    then show ?thesis by (simp add: suffix_imp_sublist)
  qed
qed

lemma sublist_not_hd:
  assumes "sublist m (c # b)" and "m \<noteq> []" and "hd m \<noteq> c"
  shows "sublist m b"
proof -
  have "\<not> prefix m (c # b)" using assms(2,3) by (cases m) auto
  then show ?thesis using assms(1) by (simp add: sublist_Cons_right)
qed

lemma sublist_not_last:
  assumes "sublist m (a @ [c])" and "m \<noteq> []" and "last m \<noteq> c"
  shows "sublist m a"
proof -
  have "\<not> suffix m (a @ [c])"
  proof
    assume "suffix m (a @ [c])"
    then obtain p where "a @ [c] = p @ m" by (auto simp add: suffix_def)
    then have "last (a @ [c]) = last (p @ m)" by simp
    then show False using assms(2,3) by simp
  qed
  then show ?thesis using assms(1) sublist_snoc [of m a c] by blast
qed

lemma sublist_not_last_run:
  assumes "sublist m (a @ g)" and "m \<noteq> []" and "last m \<notin> set g"
  shows "sublist m a"
  using assms
proof (induction g rule: rev_induct)
  case Nil
  then show ?case by simp
next
  case (snoc c g)
  have "sublist m ((a @ g) @ [c])" using snoc.prems(1) by simp
  then have "sublist m (a @ g)"
    by (rule sublist_not_last) (use snoc.prems in auto)
  then show ?case using snoc by simp
qed

lemma sublist_context:
  "sublist m a \<Longrightarrow> sublist m (x @ a @ y)"
  by (meson sublist_appendI sublist_order.order.trans)

text \<open>Two texts that begin with a run of a class and go on outside the class.\<close>

lemma run_aligned:
  assumes "u @ a = v @ b"
    and "\<forall>c\<in>set u. P c" and "\<forall>c\<in>set v. P c"
    and "a = [] \<or> \<not> P (hd a)" and "b = [] \<or> \<not> P (hd b)"
  shows "u = v \<and> a = b"
proof -
  have "takeWhile P (u @ a) = u"
    using assms(2,4) by (cases a) (simp_all add: takeWhile_append2)
  moreover have "takeWhile P (v @ b) = v"
    using assms(3,5) by (cases b) (simp_all add: takeWhile_append2)
  ultimately have "u = v" using assms(1) by simp
  then show ?thesis using assms(1) by simp
qed

lemma run_aligned_rev:
  assumes "a @ u = b @ v"
    and "\<forall>c\<in>set u. P c" and "\<forall>c\<in>set v. P c"
    and "a = [] \<or> \<not> P (last a)" and "b = [] \<or> \<not> P (last b)"
  shows "u = v \<and> a = b"
proof -
  have "rev u @ rev a = rev v @ rev b" using assms(1) by (metis rev_append)
  then have "rev u = rev v \<and> rev a = rev b"
    by (rule run_aligned [where P = P]) (use assms in \<open>auto simp add: hd_rev\<close>)
  then show ?thesis by simp
qed

lemma first_occurrence:
  assumes "p @ c # u = q @ c # v" and "c \<notin> set p" and "c \<notin> set q"
  shows "p = q \<and> u = v"
  using run_aligned [of p "c # u" q "c # v" "\<lambda>x. x \<noteq> c"] assms by auto

lemma drop_match:
  "0 < n \<Longrightarrow> c # cs = mt @ rest \<Longrightarrow> n = length mt \<Longrightarrow> drop (n - 1) cs = rest"
  by (cases mt) auto

subsection \<open>The texts that the enum expression matches\<close>

lemma white_space_not_word: "is_white_space c \<Longrightarrow> \<not> is_word c"
  using is_word_facts(1) by blast

lemma enum_match_chars:
  assumes "enum_match m" and "c \<in> set m"
  shows "is_word c \<or> is_white_space c \<or> c = 123"
proof -
  from assms(1) obtain ws1 name ws2 where m: "m = js ''enum'' @ ws1 @ name @ ws2 @ [123]"
    and w: "\<forall>c\<in>set ws1. is_white_space c" "\<forall>c\<in>set name. is_word c"
      "\<forall>c\<in>set ws2. is_white_space c"
    unfolding enum_match_def by blast
  have "c \<in> set (js ''enum'') \<or> c \<in> set ws1 \<or> c \<in> set name \<or> c \<in> set ws2 \<or> c = 123"
    using assms(2) unfolding m by auto
  moreover have "\<forall>c\<in>set (js ''enum''). is_word c" by (simp add: js_def is_word_def)
  ultimately show ?thesis using w by blast
qed

lemma enum_match_ends:
  assumes "enum_match m"
  shows "m \<noteq> []" "hd m = 101" "last m = 123"
  using assms by (auto simp add: enum_match_def js_def)

lemma enum_match_avoids:
  assumes "enum_match m" and "\<not> is_word c" and "\<not> is_white_space c" and "c \<noteq> 123"
  shows "c \<notin> set m"
  using enum_match_chars [OF assms(1)] assms(2,3,4) by blast

lemma enum_match_of_declaration:
  assumes "name \<noteq> []" and "\<forall>c\<in>set name. is_word c"
  shows "enum_match (enum_declaration name)"
  unfolding enum_match_def
proof (intro exI conjI)
  show "enum_declaration name = js ''enum'' @ [32] @ name @ [32] @ [123]"
    by (simp add: enum_declaration_def js_def)
qed (use assms in \<open>simp_all add: is_white_space_def\<close>)

text \<open>The expression matches at a position exactly when such a text starts there.\<close>

lemma match_enum_parts:
  assumes "match_enum t = Some (r, n)"
  obtains ws1 name ws2 b where "t = js ''enum'' @ ws1 @ name @ ws2 @ 123 # b"
    and "n = length (js ''enum'' @ ws1 @ name @ ws2 @ [123])"
    and "ws1 \<noteq> []" and "\<forall>c\<in>set ws1. is_white_space c"
    and "name \<noteq> []" and "\<forall>c\<in>set name. is_word c"
    and "\<forall>c\<in>set ws2. is_white_space c" and "r = class_declaration name"
proof -
  define r1 where "r1 = drop 4 t"
  define ws1 where "ws1 = takeWhile is_white_space r1"
  define r2 where "r2 = dropWhile is_white_space r1"
  define name where "name = takeWhile is_word r2"
  define r3 where "r3 = dropWhile is_word r2"
  define ws2 where "ws2 = takeWhile is_white_space r3"
  define r4 where "r4 = dropWhile is_white_space r3"
  from assms have p: "prefix (js ''enum'') t" and c: "ws1 \<noteq> []" "name \<noteq> []" "prefix [123] r4"
    and r: "r = js ''class '' @ name @ js '' {'' @ [LF] @ js ''    <<enumeration>>''"
    and n: "n = 4 + length ws1 + length name + length ws2 + 1"
    unfolding match_enum_def Let_def r1_def ws1_def r2_def name_def r3_def ws2_def r4_def
    by (auto split: if_splits)
  from p have t: "t = js ''enum'' @ r1"
    unfolding r1_def by (auto simp add: prefix_def js_def)
  have 1: "r1 = ws1 @ r2" unfolding ws1_def r2_def by simp
  have 2: "r2 = name @ r3" unfolding name_def r3_def by simp
  have 3: "r3 = ws2 @ r4" unfolding ws2_def r4_def by simp
  from c(3) obtain b where 4: "r4 = 123 # b" by (auto simp add: prefix_def)
  have w: "\<forall>c\<in>set ws1. is_white_space c" "\<forall>c\<in>set name. is_word c" "\<forall>c\<in>set ws2. is_white_space c"
    unfolding ws1_def name_def ws2_def by (auto dest: set_takeWhileD)
  have f1: "t = js ''enum'' @ ws1 @ name @ ws2 @ 123 # b" using t 1 2 3 4 by simp
  have f2: "n = length (js ''enum'' @ ws1 @ name @ ws2 @ [123])" using n by (simp add: js_def)
  have f3: "r = class_declaration name" using r by (simp add: class_declaration_def)
  show ?thesis by (rule that [OF f1 f2 c(1) w(1) c(2) w(2) w(3) f3])
qed

lemma match_enum_SomeE:
  assumes "match_enum t = Some (r, n)"
  obtains m b name where "t = m @ b" and "enum_match m" and "n = length m" and "0 < n"
    and "name \<noteq> []" and "\<forall>c\<in>set name. is_word c" and "r = class_declaration name"
proof -
  obtain ws1 name ws2 b where p: "t = js ''enum'' @ ws1 @ name @ ws2 @ 123 # b"
    "n = length (js ''enum'' @ ws1 @ name @ ws2 @ [123])"
    "ws1 \<noteq> []" "\<forall>c\<in>set ws1. is_white_space c"
    "name \<noteq> []" "\<forall>c\<in>set name. is_word c"
    "\<forall>c\<in>set ws2. is_white_space c" "r = class_declaration name"
    by (rule match_enum_parts [OF assms])
  let ?m = "js ''enum'' @ ws1 @ name @ ws2 @ [123]"
  have f1: "t = ?m @ b" using p(1) by simp
  have f2: "enum_match ?m"
    unfolding enum_match_def
    by (rule exI [of _ ws1], rule exI [of _ name], rule exI [of _ ws2]) (simp add: p(3,4,5,6,7))
  have f4: "0 < n" using p(2) by (simp add: js_def)
  show ?thesis by (rule that [OF f1 f2 p(2) f4 p(5) p(6) p(8)])
qed

lemma match_enum_of_match:
  assumes "enum_match m"
  shows "match_enum (m @ b) \<noteq> None"
proof -
  from assms obtain ws1 name ws2 where m: "m = js ''enum'' @ ws1 @ name @ ws2 @ [123]"
    and c: "ws1 \<noteq> []" "\<forall>c\<in>set ws1. is_white_space c" "name \<noteq> []" "\<forall>c\<in>set name. is_word c"
      "\<forall>c\<in>set ws2. is_white_space c"
    unfolding enum_match_def by blast
  have hn: "\<not> is_white_space (hd name)" using c(3,4) is_word_facts(1) by (cases name) auto
  have p: "prefix (js ''enum'') (m @ b)" unfolding m by simp
  have r1: "drop 4 (m @ b) = ws1 @ name @ ws2 @ 123 # b" unfolding m by (simp add: js_def)
  have s1: "takeWhile is_white_space (ws1 @ name @ ws2 @ 123 # b) = ws1"
    "dropWhile is_white_space (ws1 @ name @ ws2 @ 123 # b) = name @ ws2 @ 123 # b"
    using span_all [OF c(2), of "name @ ws2 @ 123 # b"] hn c(3) by (cases name; simp)+
  have nw: "\<not> is_word (hd (ws2 @ 123 # b))"
    using c(5) white_space_not_word by (cases ws2) (auto simp add: is_word_def)
  have s2: "takeWhile is_word (name @ ws2 @ 123 # b) = name"
    "dropWhile is_word (name @ ws2 @ 123 # b) = ws2 @ 123 # b"
    using span_all [OF c(4), of "ws2 @ 123 # b"] nw by (cases "ws2 @ 123 # b"; simp)+
  have s3: "takeWhile is_white_space (ws2 @ 123 # b) = ws2"
    "dropWhile is_white_space (ws2 @ 123 # b) = 123 # b"
  proof -
    have "\<not> is_white_space 123" by (simp add: is_white_space_def)
    then show "takeWhile is_white_space (ws2 @ 123 # b) = ws2"
      "dropWhile is_white_space (ws2 @ 123 # b) = 123 # b"
      using span_all [OF c(5), of "123 # b"] by simp_all
  qed
  show ?thesis
    unfolding match_enum_def Let_def r1 s1 s2 s3 using p c(1,3) by simp
qed



subsection \<open>The enum rule leaves no match\<close>

lemma enum_match_body:
  assumes "enum_match m"
  obtains body where "m = body @ [123]" and "123 \<notin> set body"
proof -
  from assms obtain ws1 name ws2 where m: "m = js ''enum'' @ ws1 @ name @ ws2 @ [123]"
    and w: "\<forall>c\<in>set ws1. is_white_space c" "\<forall>c\<in>set name. is_word c"
      "\<forall>c\<in>set ws2. is_white_space c"
    unfolding enum_match_def by blast
  have "\<not> is_white_space 123" "\<not> is_word 123" by (simp_all add: is_white_space_def is_word_def)
  then have "123 \<notin> set ws1" "123 \<notin> set name" "123 \<notin> set ws2" using w by blast+
  then have "123 \<notin> set (js ''enum'' @ ws1 @ name @ ws2)" by (simp add: js_def)
  moreover have "m = (js ''enum'' @ ws1 @ name @ ws2) @ [123]" using m by simp
  ultimately show ?thesis using that by blast
qed

text \<open>
  The class declaration that replaces a match: no text that the expression matches
  ends with its opening brace, and none starts in it.
\<close>

lemma enum_match_not_into_class_declaration:
  assumes "enum_match m" and n: "name \<noteq> []" "\<forall>c\<in>set name. is_word c"
    and e: "m = x @ js ''class '' @ name @ [32, 123]"
  shows False
proof -
  from assms(1) obtain ws1 nm ws2 where m: "m = js ''enum'' @ ws1 @ nm @ ws2 @ [123]"
    and c: "ws1 \<noteq> []" "\<forall>c\<in>set ws1. is_white_space c" "nm \<noteq> []" "\<forall>c\<in>set nm. is_word c"
      "\<forall>c\<in>set ws2. is_white_space c"
    unfolding enum_match_def by blast
  have sp: "is_white_space 32" "\<not> is_word 32" "\<not> is_white_space 109" "\<not> is_white_space 115"
    by (simp_all add: is_white_space_def is_word_def)
  have l1: "\<not> is_white_space (last nm)" "\<not> is_white_space (last name)"
    using c(3,4) n is_word_facts(1) last_in_set by blast+
  have l2: "\<not> is_word (last ws1)" using c(1,2) white_space_not_word last_in_set by blast
  have 0: "(js ''enum'' @ ws1 @ nm) @ ws2 = (x @ js ''class '' @ name) @ [32]"
    using m e by simp
  have "ws2 = [32] \<and> js ''enum'' @ ws1 @ nm = x @ js ''class '' @ name"
    by (rule run_aligned_rev [OF 0, where P = is_white_space])
       (use c(3,5) n(1) sp l1 in simp_all)
  then have 1: "(js ''enum'' @ ws1) @ nm = (x @ js ''class '') @ name" by simp
  have "nm = name \<and> js ''enum'' @ ws1 = x @ js ''class ''"
    by (rule run_aligned_rev [OF 1, where P = is_word])
       (use c(1,4) n(2) sp l2 in \<open>simp_all add: js_def\<close>)
  then have 2: "js ''enum'' @ ws1 = (x @ js ''class'') @ [32]" by (simp add: js_def)
  have "ws1 = [32] \<and> js ''enum'' = x @ js ''class''"
    by (rule run_aligned_rev [OF 2, where P = is_white_space])
       (use c(2) sp in \<open>simp_all add: js_def\<close>)
  then have "last (js ''enum'') = last (x @ js ''class'')" by simp
  then show False by (simp add: js_def)
qed

lemma class_declaration_parts:
  "class_declaration name =
     js ''class '' @ name @
     [32, 123, LF, 32, 32, 32, 32, 60, 60, 101, 110, 117, 109, 101, 114, 97, 116, 105, 111, 110, 62, 62]"
  by (simp add: class_declaration_def js_def)

lemma no_enum_match_in_class_declaration:
  assumes "enum_match m" and n: "name \<noteq> []" "\<forall>c\<in>set name. is_word c"
    and y: "suffix y (class_declaration name)" "y \<noteq> []"
    and e: "y @ z = m @ b"
  shows False
proof -
  let ?tl = "[32, 123, LF, 32, 32, 32, 32, 60, 60, 101, 110, 117, 109, 101, 114, 97, 116, 105, 111, 110, 62, 62]"
  from assms(1) obtain ws1 nm ws2 where m: "m = js ''enum'' @ ws1 @ nm @ ws2 @ [123]"
    and c: "ws1 \<noteq> []" "\<forall>c\<in>set ws1. is_white_space c" "nm \<noteq> []" "\<forall>c\<in>set nm. is_word c"
      "\<forall>c\<in>set ws2. is_white_space c"
    unfolding enum_match_def by blast
  obtain w ws1' where ws1: "ws1 = w # ws1'" using c(1) by (cases ws1) auto
  then have w: "is_white_space w" "\<not> is_word w" using c(2) white_space_not_word by auto
  have mb: "m @ b = 101 # 110 # 117 # 109 # w # ws1' @ nm @ ws2 @ 123 # b"
    unfolding m ws1 by (simp add: js_def)
  have w101: "\<not> is_white_space 101" by (simp add: is_white_space_def)
  from y(1) have "suffix y ?tl \<or> (\<exists>n'. y = n' @ ?tl \<and> suffix n' name) \<or>
      (\<exists>c'. y = c' @ name @ ?tl \<and> suffix c' (js ''class ''))"
    unfolding class_declaration_parts suffix_append [of y "js ''class ''"]
      suffix_append [of y name] by blast
  then consider (tail) "suffix y ?tl"
    | (name) n' where "y = n' @ ?tl" "suffix n' name" "n' \<noteq> []"
    | (cls) c' where "y = c' @ name @ ?tl" "suffix c' (js ''class '')" "c' \<noteq> []"
    by (metis append_Nil suffix_order.order_refl suffix_appendI)
  then show False
  proof cases
    case tail
    then have "y \<in> set (suffixes ?tl)" by (simp only: in_set_suffixes)
    then show False using y(2) e w w101 unfolding mb by auto
  next
    case name
    have wn: "\<forall>c\<in>set n'. is_word c" using name(2) n(2) set_mono_suffix by blast
    have 0: "n' @ (?tl @ z) = js ''enum'' @ (ws1 @ nm @ ws2 @ 123 # b)"
      using e name(1) m by simp
    have "n' = js ''enum'' \<and> ?tl @ z = ws1 @ nm @ ws2 @ 123 # b"
      by (rule run_aligned [OF 0, where P = is_word])
         (use wn w ws1 in \<open>simp_all add: js_def is_word_def\<close>)
    then have 1: "[32] @ (123 # tl (tl ?tl) @ z) = ws1 @ (nm @ ws2 @ 123 # b)" by simp
    have hn: "\<not> is_white_space (hd nm)" using c(3,4) is_word_facts(1) hd_in_set by blast
    have "[32] = ws1 \<and> 123 # tl (tl ?tl) @ z = nm @ ws2 @ 123 # b"
      by (rule run_aligned [OF 1, where P = is_white_space])
         (use c(2,3) hn in \<open>simp_all add: is_white_space_def\<close>)
    then have "hd nm = 123" using c(3) by (cases nm) auto
    then have "is_word 123" using c(3,4) hd_in_set by metis
    then show False by (simp add: is_word_def)
  next
    case cls
    then have "c' \<in> set (suffixes (js ''class ''))" by (simp only: in_set_suffixes)
    then show False using cls(1,3) e unfolding mb by (auto simp add: js_def)
  qed
qed

lemma enum_match_around_class_declaration:
  assumes m: "enum_match m" and n: "name \<noteq> []" "\<forall>c\<in>set name. is_word c"
    and e: "x @ class_declaration name @ z = a @ m @ b"
    and l: "length a < length x + length (class_declaration name)"
  shows "\<exists>b'. x = a @ m @ b'"
proof (cases "length a < length x")
  case True
  define x' where "x' = drop (length a) x"
  have "take (length a) (x @ class_declaration name @ z) = take (length a) (a @ m @ b)"
    using e by simp
  then have "take (length a) x = a" using True by simp
  then have x: "x = a @ x'"
    unfolding x'_def using append_take_drop_id [of "length a" x] by simp
  have x'e: "x' @ class_declaration name @ z = m @ b" using e x by simp
  obtain body where body: "m = body @ [123]" "123 \<notin> set body"
    by (rule enum_match_body [OF m])
  show ?thesis
  proof (cases "123 \<in> set x'")
    case True
    then have "\<exists>p q. x' = p @ 123 # q \<and> 123 \<notin> set p" by (rule split_list_first)
    then obtain p q where pq: "x' = p @ 123 # q" "123 \<notin> set p" by blast
    have eq: "p @ 123 # (q @ class_declaration name @ z) = body @ 123 # b"
      using x'e pq(1) body(1) by simp
    have "p = body \<and> q @ class_declaration name @ z = b"
      by (rule first_occurrence [OF eq pq(2) body(2)])
    then have "x = a @ m @ q" using x pq(1) body(1) by simp
    then show ?thesis by (rule exI)
  next
    case False
    let ?tl = "[LF, 32, 32, 32, 32, 60, 60, 101, 110, 117, 109, 101, 114, 97, 116, 105, 111, 110, 62, 62]"
    have "123 \<notin> set name" using n(2) is_word_facts(3) by blast
    then have no: "123 \<notin> set (x' @ js ''class '' @ name @ [32])"
      using False by (simp add: js_def)
    have eq: "(x' @ js ''class '' @ name @ [32]) @ 123 # (?tl @ z) = body @ 123 # b"
      using x'e body(1) by (simp add: class_declaration_parts)
    have "x' @ js ''class '' @ name @ [32] = body \<and> ?tl @ z = b"
      by (rule first_occurrence [OF eq no body(2)])
    then have me: "m = x' @ js ''class '' @ name @ [32, 123]" using body(1) by simp
    have False by (rule enum_match_not_into_class_declaration [OF m n me])
    then show ?thesis ..
  qed
next
  case False
  define a' where "a' = drop (length x) a"
  have "take (length x) (x @ class_declaration name @ z) = take (length x) (a @ m @ b)"
    using e by simp
  then have "take (length x) a = x" using False by simp
  then have a: "a = x @ a'"
    unfolding a'_def using append_take_drop_id [of "length x" a] by simp
  have la: "length a' < length (class_declaration name)" using l a by simp
  have e': "class_declaration name @ z = a' @ m @ b" using e a by simp
  define y where "y = drop (length a') (class_declaration name)"
  have "take (length a') (class_declaration name @ z) = take (length a') (a' @ m @ b)"
    using e' by simp
  then have "take (length a') (class_declaration name) = a'" using la by simp
  then have r: "class_declaration name = a' @ y"
    unfolding y_def using append_take_drop_id [of "length a'" "class_declaration name"] by simp
  have ynil: "y \<noteq> []" using la r by auto
  have suf: "suffix y (class_declaration name)" by (subst r) (rule suffixI, rule refl)
  have eq: "y @ z = m @ b" using e' r by simp
  have False by (rule no_enum_match_in_class_declaration [OF m n suf ynil eq])
  then show ?thesis ..
qed

text \<open>
  A match in the result of the enum rule after a text \<open>x\<close> lies in \<open>x\<close>, or it starts
  in \<open>x\<close> and was a match before the rule already.
\<close>

lemma enum_rule_matches:
  assumes m: "enum_match m"
  shows "x @ replace_global match_enum s = a @ m @ b \<Longrightarrow>
         (\<exists>b'. x = a @ m @ b') \<or> (\<exists>x2. x = a @ x2 \<and> x2 \<noteq> [] \<and> prefix m (x2 @ s))"
proof (induction "length s" arbitrary: s x b rule: less_induct)
  case less
  have m2: "2 \<le> length m"
    using m by (auto simp add: enum_match_def js_def)
  show ?case
  proof (cases s)
    case Nil
    then show ?thesis using less.prems by simp
  next
    case (Cons c cs)
    show ?thesis
    proof (cases "match_enum s")
      case None
      then have "(x @ [c]) @ replace_global match_enum cs = a @ m @ b"
        using less.prems Cons by (simp add: replace_global.simps)
      then consider b' where "x @ [c] = a @ m @ b'"
        | x2 where "x @ [c] = a @ x2" "x2 \<noteq> []" "prefix m (x2 @ cs)"
        using less.hyps [of cs "x @ [c]" b] Cons by auto
      then show ?thesis
      proof cases
        case 1
        show ?thesis
        proof (cases b' rule: rev_cases)
          case Nil
          then have am: "x @ [c] = a @ m" using 1 by simp
          obtain m' where m': "m = m' @ [c]"
            using am m2 by (cases m rule: rev_cases) auto
          then have "x = a @ m'" using am by simp
          moreover have "m' \<noteq> []" using m' m2 by auto
          moreover have "prefix m (m' @ s)" using m' Cons by simp
          ultimately show ?thesis by blast
        next
          case (snoc b'' d)
          then have "x = a @ m @ b''" using 1 by simp
          then show ?thesis by blast
        qed
      next
        case 2
        obtain x2' where x2': "x2 = x2' @ [c]"
          using 2(1,2) by (cases x2 rule: rev_cases) auto
        then have xa: "x = a @ x2'" using 2(1) by simp
        have p: "prefix m (x2' @ s)" using 2(3) x2' Cons by simp
        have "x2' \<noteq> []"
        proof
          assume "x2' = []"
          then obtain b'' where "s = m @ b''" using p by (auto simp add: prefix_def)
          then show False using match_enum_of_match [OF m, of b''] None by simp
        qed
        then show ?thesis using xa p by blast
      qed
    next
      case (Some p)
      obtain r n where p: "p = (r, n)" by (cases p)
      obtain mt rest name where mt: "s = mt @ rest" "n = length mt" "0 < n"
        and name: "name \<noteq> []" "\<forall>c\<in>set name. is_word c" and r: "r = class_declaration name"
        using match_enum_SomeE [of s r n] Some p by metis
      have d: "drop (n - 1) cs = rest" using drop_match [OF mt(3) _ mt(2)] mt(1) Cons by simp
      have lr: "length rest < length s" using mt by simp
      have "(x @ r) @ replace_global match_enum rest = a @ m @ b"
        using less.prems Cons Some p d by (simp add: replace_global.simps)
      then consider b' where "x @ r = a @ m @ b'"
        | x2 where "x @ r = a @ x2" "x2 \<noteq> []" "prefix m (x2 @ rest)"
        using less.hyps [OF lr, of "x @ r" b] by auto
      then have "\<exists>z b'. x @ class_declaration name @ z = a @ m @ b' \<and>
          length a < length x + length (class_declaration name)"
      proof cases
        case 1
        then have "x @ class_declaration name @ [] = a @ m @ b'" using r by simp
        moreover have "length a < length x + length (class_declaration name)"
        proof -
          have "length (x @ r) = length (a @ m @ b')" using 1 by simp
          then have "length x + length (class_declaration name) = length a + (length m + length b')"
            unfolding r by (simp only: length_append)
          then show ?thesis using m2 by arith
        qed
        ultimately show ?thesis by blast
      next
        case 2
        obtain b' where "x2 @ rest = m @ b'" using 2(3) by (auto simp add: prefix_def)
        then have "x @ class_declaration name @ rest = a @ m @ b'"
          using 2(1) r by (metis append_assoc)
        moreover have "length a < length x + length (class_declaration name)"
        proof -
          have "length (x @ r) = length (a @ x2)" using 2(1) by simp
          then have "length x + length (class_declaration name) = length a + length x2"
            unfolding r by (simp only: length_append)
          moreover have "0 < length x2" using 2(2) by simp
          ultimately show ?thesis by arith
        qed
        ultimately show ?thesis by blast
      qed
      then show ?thesis
        using enum_match_around_class_declaration [OF m name] by blast
    qed
  qed
qed

lemma enum_rule_leaves_no_match:
  assumes "enum_match m"
  shows "\<not> sublist m (replace_global match_enum s)"
proof
  assume "sublist m (replace_global match_enum s)"
  then obtain a b where "[] @ replace_global match_enum s = a @ m @ b"
    by (auto simp add: sublist_def)
  then have "(\<exists>b'. [] = a @ m @ b') \<or> (\<exists>x2. [] = a @ x2 \<and> x2 \<noteq> [] \<and> prefix m (x2 @ s))"
    by (rule enum_rule_matches [OF assms])
  then show False using enum_match_ends(1) [OF assms] by simp
qed



subsection \<open>The arrow rule and the visibility rule create no match\<close>

lemma match_arrow_SomeE:
  assumes "match_arrow t = Some (r, n)"
  obtains w1 g w2 rest where "t = (w1 @ g @ w2) @ rest" and "n = length (w1 @ g @ w2)"
    and "0 < n" and "r = w1 @ js '' --|> '' @ w2" and "g \<noteq> []" and "\<forall>c\<in>set g. \<not> is_word c"
proof -
  define w1 where "w1 = takeWhile is_word t"
  define r1 where "r1 = dropWhile is_word t"
  define ws1 where "ws1 = takeWhile is_white_space r1"
  define r2 where "r2 = dropWhile is_white_space r1"
  define r3 where "r3 = drop 2 r2"
  define ws2 where "ws2 = takeWhile is_white_space r3"
  define r4 where "r4 = dropWhile is_white_space r3"
  define w2 where "w2 = takeWhile is_word r4"
  from assms have c: "w1 \<noteq> []" "prefix (js ''->'') r2" "w2 \<noteq> []"
    and r: "r = w1 @ js '' --|> '' @ w2"
    and n: "n = length w1 + length ws1 + 2 + length ws2 + length w2"
    unfolding match_arrow_def Let_def w1_def r1_def ws1_def r2_def r3_def ws2_def r4_def w2_def
    by (auto split: if_splits)
  have 1: "t = w1 @ r1" unfolding w1_def r1_def by simp
  have 2: "r1 = ws1 @ r2" unfolding ws1_def r2_def by simp
  have 3: "r2 = js ''->'' @ r3"
    using c(2) unfolding r3_def by (auto simp add: prefix_def js_def)
  have 4: "r3 = ws2 @ r4" unfolding ws2_def r4_def by simp
  have 5: "r4 = w2 @ dropWhile is_word r4" unfolding w2_def by simp
  let ?g = "ws1 @ js ''->'' @ ws2"
  have f1: "t = (w1 @ ?g @ w2) @ dropWhile is_word r4"
    using 1 2 3 4 5 by (metis append_assoc)
  have f2: "n = length (w1 @ ?g @ w2)" using n by (simp add: js_def)
  have f3: "0 < n" using n by simp
  have f4: "?g \<noteq> []" by (simp add: js_def)
  have "\<forall>c\<in>set ws1. is_white_space c" "\<forall>c\<in>set ws2. is_white_space c"
    unfolding ws1_def ws2_def by (auto dest: set_takeWhileD)
  then have f5: "\<forall>c\<in>set ?g. \<not> is_word c"
    using white_space_not_word by (auto simp add: js_def is_word_def)
  show ?thesis by (rule that [OF f1 f2 f3 r f4 f5])
qed

lemma enum_match_around_arrow:
  assumes m: "enum_match m" and s: "sublist m (x @ w1 @ js '' --|> '' @ w2 @ z)"
  shows "sublist m (x @ (w1 @ g @ w2) @ z)"
proof -
  have e: "m \<noteq> []" "hd m \<noteq> 45" "hd m \<noteq> 124" "hd m \<noteq> 62" "hd m \<noteq> 32" "last m \<noteq> 32"
    using enum_match_ends [OF m] by simp_all
  have "45 \<notin> set m"
    by (rule enum_match_avoids [OF m]) (simp_all add: is_word_def is_white_space_def)
  moreover have "sublist m ((x @ w1 @ [32]) @ 45 # (45 # 124 # 62 # 32 # w2 @ z))"
    using s by (simp add: js_def)
  ultimately have "sublist m (x @ w1 @ [32]) \<or> sublist m (45 # 124 # 62 # 32 # w2 @ z)"
    by (rule sublist_avoids [rotated])
  then show ?thesis
  proof
    assume "sublist m (x @ w1 @ [32])"
    then have "sublist m ((x @ w1) @ [32])" by simp
    then have "sublist m (x @ w1)" using e(1,6) by (rule sublist_not_last)
    then have "sublist m ([] @ (x @ w1) @ (g @ w2 @ z))" by (rule sublist_context)
    then show ?thesis by simp
  next
    assume "sublist m (45 # 124 # 62 # 32 # w2 @ z)"
    then have "sublist m (124 # 62 # 32 # w2 @ z)" using e(1,2) by (rule sublist_not_hd)
    then have "sublist m (62 # 32 # w2 @ z)" using e(1,3) by (rule sublist_not_hd)
    then have "sublist m (32 # w2 @ z)" using e(1,4) by (rule sublist_not_hd)
    then have "sublist m (w2 @ z)" using e(1,5) by (rule sublist_not_hd)
    then have "sublist m ((x @ w1 @ g) @ (w2 @ z) @ [])" by (rule sublist_context)
    then show ?thesis by simp
  qed
qed

lemma arrow_rule_matches:
  assumes m: "enum_match m"
  shows "sublist m (x @ replace_global match_arrow s) \<Longrightarrow> sublist m (x @ s)"
proof (induction "length s" arbitrary: s x rule: less_induct)
  case less
  show ?case
  proof (cases s)
    case Nil
    then show ?thesis using less.prems by simp
  next
    case (Cons c cs)
    show ?thesis
    proof (cases "match_arrow s")
      case None
      then have "sublist m ((x @ [c]) @ replace_global match_arrow cs)"
        using less.prems Cons by (simp add: replace_global.simps)
      then have "sublist m ((x @ [c]) @ cs)"
        using less.hyps [of cs "x @ [c]"] Cons by simp
      then show ?thesis using Cons by simp
    next
      case (Some p)
      obtain r n where p: "p = (r, n)" by (cases p)
      have sm: "match_arrow s = Some (r, n)" using Some p by simp
      obtain w1 g w2 rest where mt: "s = (w1 @ g @ w2) @ rest" "n = length (w1 @ g @ w2)" "0 < n"
        and r: "r = w1 @ js '' --|> '' @ w2" and g: "g \<noteq> []" "\<forall>c\<in>set g. \<not> is_word c"
        by (rule match_arrow_SomeE [OF sm])
      have d: "drop (n - 1) cs = rest"
        using drop_match [OF mt(3) _ mt(2), of c cs rest] mt(1) Cons by simp
      have lr: "length rest < length s" using mt by simp
      have "sublist m ((x @ r) @ replace_global match_arrow rest)"
        using less.prems Cons sm d by (simp add: replace_global.simps)
      then have "sublist m ((x @ r) @ rest)" by (rule less.hyps [OF lr])
      then have "sublist m (x @ w1 @ js '' --|> '' @ w2 @ rest)" using r by simp
      then have "sublist m (x @ (w1 @ g @ w2) @ rest)" by (rule enum_match_around_arrow [OF m])
      then show ?thesis using mt(1) by simp
    qed
  qed
qed

lemma match_visibility_SomeE:
  assumes "match_visibility t = Some (r, n)"
  obtains ws mk w rest where "t = (ws @ mk # w) @ rest" and "n = length (ws @ mk # w)"
    and "0 < n" and "r = ws @ [mk, 32] @ w" and "mk = 43 \<or> mk = 45 \<or> mk = 35 \<or> mk = 126"
proof -
  define ws where "ws = takeWhile is_white_space t"
  define r1 where "r1 = dropWhile is_white_space t"
  have 1: "t = ws @ r1" unfolding ws_def r1_def by simp
  from assms obtain mk r2 where r1: "r1 = mk # r2"
    unfolding match_visibility_def Let_def r1_def by (auto split: list.splits)
  define w where "w = takeWhile is_word r2"
  have 2: "r2 = w @ dropWhile is_word r2" unfolding w_def by simp
  from assms have mk: "mk = 43 \<or> mk = 45 \<or> mk = 35 \<or> mk = 126"
    and r: "r = ws @ [mk, 32] @ w" and n: "n = length ws + 1 + length w"
    unfolding match_visibility_def Let_def r1_def [symmetric] r1 ws_def [symmetric]
    by (auto simp add: w_def split: if_splits)
  have f1: "t = (ws @ mk # w) @ dropWhile is_word r2" using 1 r1 2 by simp
  have f2: "n = length (ws @ mk # w)" and f3: "0 < n" using n by simp_all
  show ?thesis by (rule that [OF f1 f2 f3 r mk])
qed

lemma enum_match_around_visibility:
  assumes m: "enum_match m" and mk: "mk = 43 \<or> mk = 45 \<or> mk = 35 \<or> mk = 126"
    and s: "sublist m (x @ (ws @ [mk, 32] @ w) @ z)"
  shows "sublist m (x @ (ws @ mk # w) @ z)"
proof -
  have e: "m \<noteq> []" "hd m \<noteq> 32" using enum_match_ends [OF m] by simp_all
  have "mk \<notin> set m"
    by (rule enum_match_avoids [OF m]) (use mk in \<open>auto simp add: is_word_def is_white_space_def\<close>)
  moreover have "sublist m ((x @ ws) @ mk # (32 # w @ z))" using s by simp
  ultimately have "sublist m (x @ ws) \<or> sublist m (32 # w @ z)"
    by (rule sublist_avoids [rotated])
  then show ?thesis
  proof
    assume "sublist m (x @ ws)"
    then have "sublist m ([] @ (x @ ws) @ (mk # w @ z))" by (rule sublist_context)
    then show ?thesis by simp
  next
    assume "sublist m (32 # w @ z)"
    then have "sublist m (w @ z)" using e by (rule sublist_not_hd)
    then have "sublist m ((x @ ws @ [mk]) @ (w @ z) @ [])" by (rule sublist_context)
    then show ?thesis by simp
  qed
qed

lemma visibility_rule_matches:
  assumes m: "enum_match m"
  shows "sublist m (x @ replace_visibility f s) \<Longrightarrow> sublist m (x @ s)"
proof (induction "length s" arbitrary: s x f rule: less_induct)
  case less
  show ?case
  proof (cases s)
    case Nil
    then show ?thesis using less.prems by simp
  next
    case (Cons c cs)
    show ?thesis
    proof (cases "if f then match_visibility (c # cs) else None")
      case None
      then have "sublist m ((x @ [c]) @ replace_visibility (is_line_terminator c) cs)"
        using less.prems Cons by (simp add: replace_visibility_None)
      then have "sublist m ((x @ [c]) @ cs)"
        using less.hyps [of cs "x @ [c]"] Cons by simp
      then show ?thesis using Cons by simp
    next
      case (Some p)
      obtain r n where p: "p = (r, n)" by (cases p)
      have sf: "(if f then match_visibility (c # cs) else None) = Some (r, n)"
        using Some p by simp
      then have sm: "match_visibility s = Some (r, n)" using Cons by (cases f) auto
      obtain ws mk w rest where mt: "s = (ws @ mk # w) @ rest" "n = length (ws @ mk # w)" "0 < n"
        and r: "r = ws @ [mk, 32] @ w" and mk: "mk = 43 \<or> mk = 45 \<or> mk = 35 \<or> mk = 126"
        by (rule match_visibility_SomeE [OF sm])
      have d: "drop (n - 1) cs = rest"
        using drop_match [OF mt(3) _ mt(2), of c cs rest] mt(1) Cons by simp
      have lr: "length rest < length s" using mt by simp
      have "sublist m ((x @ r) @
          replace_visibility (is_line_terminator ((c # cs) ! (n - 1))) rest)"
        using less.prems Cons replace_visibility_Some [OF sf] d by simp
      then have "sublist m ((x @ r) @ rest)" by (rule less.hyps [OF lr])
      then have "sublist m (x @ (ws @ [mk, 32] @ w) @ rest)" using r by simp
      then have "sublist m (x @ (ws @ mk # w) @ rest)"
        by (rule enum_match_around_visibility [OF m mk])
      then show ?thesis using mt(1) by simp
    qed
  qed
qed

subsection \<open>The class diagram rules leave no match of the enum expression\<close>

lemma class_rules_leave_no_match:
  assumes m: "enum_match m"
  shows "\<not> sublist m (fix_class_diagram s)"
proof
  assume "sublist m (fix_class_diagram s)"
  then have "sublist m ([] @ replace_visibility True
      (replace_global match_arrow (replace_global match_enum s)))"
    by (simp add: fix_class_diagram_def)
  then have "sublist m ([] @ replace_global match_arrow (replace_global match_enum s))"
    by (rule visibility_rule_matches [OF m])
  then have "sublist m ([] @ replace_global match_enum s)"
    by (rule arrow_rule_matches [OF m])
  then show False using enum_rule_leaves_no_match [OF m] by simp
qed

lemma fix_class_diagram_no_enum_match:
  "match_enum (drop i (fix_class_diagram s)) = None"
proof (rule ccontr)
  assume "match_enum (drop i (fix_class_diagram s)) \<noteq> None"
  then obtain r n where sm: "match_enum (drop i (fix_class_diagram s)) = Some (r, n)" by auto
  obtain m b where mb: "drop i (fix_class_diagram s) = m @ b" and m: "enum_match m"
    by (rule match_enum_SomeE [OF sm])
  have "fix_class_diagram s = take i (fix_class_diagram s) @ m @ b"
    using mb append_take_drop_id [of i "fix_class_diagram s"] by simp
  then have "sublist m (fix_class_diagram s)" by (metis sublist_appendI)
  then show False using class_rules_leave_no_match [OF m] by simp
qed

lemma fix_class_diagram_no_enum_declaration:
  assumes "name \<noteq> []" and "\<forall>c\<in>set name. is_word c"
  shows "\<not> sublist (enum_declaration name) (fix_class_diagram s)"
  by (rule class_rules_leave_no_match) (rule enum_match_of_declaration [OF assms])



subsection \<open>Keywords\<close>

lemma has_keyword_from_occurrence:
  "has_keyword_from f kw s \<Longrightarrow>
   \<exists>a b. s = a @ kw @ b \<and> (if a = [] then \<not> f else \<not> is_word (last a)) \<and>
         (b = [] \<or> \<not> is_word (hd b))"
proof (induction s arbitrary: f)
  case Nil
  then show ?case by simp
next
  case (Cons c cs)
  from Cons.prems consider
    (here) "\<not> f" "prefix kw (c # cs)"
      "case drop (length kw) (c # cs) of [] \<Rightarrow> True | d # ds \<Rightarrow> \<not> is_word d"
    | (later) "has_keyword_from (is_word c) kw cs"
    by auto
  then show ?case
  proof cases
    case here
    from here(2) obtain b where b: "c # cs = kw @ b" by (auto simp add: prefix_def)
    then have "drop (length kw) (c # cs) = b" by simp
    then have "b = [] \<or> \<not> is_word (hd b)" using here(3) by (cases b) auto
    then have "c # cs = [] @ kw @ b \<and> (if [] = ([] :: jsstring) then \<not> f else \<not> is_word (last [])) \<and>
        (b = [] \<or> \<not> is_word (hd b))"
      using b here(1) by simp
    then show ?thesis by blast
  next
    case later
    then obtain a b where ab: "cs = a @ kw @ b"
      "if a = [] then \<not> is_word c else \<not> is_word (last a)" "b = [] \<or> \<not> is_word (hd b)"
      using Cons.IH [of "is_word c"] by blast
    have "\<not> is_word (last (c # a))" using ab(2) by (cases a) auto
    then have "c # cs = (c # a) @ kw @ b \<and>
        (if c # a = [] then \<not> f else \<not> is_word (last (c # a))) \<and> (b = [] \<or> \<not> is_word (hd b))"
      using ab(1,3) by simp
    then show ?thesis by blast
  qed
qed

lemma has_keyword_occurrence: "has_keyword t kw \<Longrightarrow> keyword_in kw t"
proof -
  assume "has_keyword t kw"
  then obtain a b where "t = a @ kw @ b"
    "if a = [] then \<not> False else \<not> is_word (last a)" "b = [] \<or> \<not> is_word (hd b)"
    unfolding has_keyword_def using has_keyword_from_occurrence [of False kw t] by blast
  then have "t = a @ kw @ b \<and> (a = [] \<or> \<not> is_word (last a)) \<and> (b = [] \<or> \<not> is_word (hd b))"
    by (cases a) auto
  then show ?thesis unfolding keyword_in_def by blast
qed

text \<open>A word and a code unit, or a run of code units, outside the words.\<close>

lemma word_split:
  assumes kw: "kw \<noteq> []" "\<forall>c\<in>set kw. is_word c" and c: "\<not> is_word c"
    and e: "A @ c # B = a @ kw @ b"
  shows "(\<exists>b1. A = a @ kw @ b1 \<and> b = b1 @ c # B) \<or> (\<exists>a2. B = a2 @ kw @ b \<and> a = A @ c # a2)"
proof -
  have nc: "c \<notin> set kw" using kw(2) c by blast
  from e have "A @ (c # B) = a @ (kw @ b)" by simp
  then consider us where "A = a @ us" "us @ c # B = kw @ b"
    | us where "A @ us = a" "c # B = us @ kw @ b"
    unfolding append_eq_append_conv2 by blast
  then show ?thesis
  proof cases
    case 1
    from 1(2) consider vs where "us = kw @ vs" "vs @ c # B = b"
      | vs where "us @ vs = kw" "c # B = vs @ b"
      unfolding append_eq_append_conv2 by blast
    then show ?thesis
    proof cases
      case 1
      then show ?thesis using \<open>A = a @ us\<close> by auto
    next
      case 2
      show ?thesis
      proof (cases vs)
        case Nil
        then show ?thesis using 2 \<open>A = a @ us\<close> by auto
      next
        case (Cons d vs')
        then have "c \<in> set kw" using 2 by auto
        then show ?thesis using nc by simp
      qed
    qed
  next
    case 2
    show ?thesis
    proof (cases us)
      case Nil
      then have "c # B = kw @ b" using 2(2) by simp
      then have "c \<in> set kw" using kw(1) by (cases kw) auto
      then show ?thesis using nc by simp
    next
      case (Cons d us')
      then show ?thesis using 2 by auto
    qed
  qed
qed

lemma word_split_run:
  assumes kw: "kw \<noteq> []" "\<forall>c\<in>set kw. is_word c"
  shows "g \<noteq> [] \<Longrightarrow> \<forall>c\<in>set g. \<not> is_word c \<Longrightarrow> A @ g @ B = a @ kw @ b \<Longrightarrow>
         (\<exists>b1. A = a @ kw @ b1 \<and> b = b1 @ g @ B) \<or> (\<exists>a2. B = a2 @ kw @ b \<and> a = A @ g @ a2)"
proof (induction g arbitrary: A a)
  case Nil
  then show ?case by simp
next
  case (Cons c g)
  have c: "\<not> is_word c" using Cons.prems(2) by simp
  have e: "A @ c # (g @ B) = a @ kw @ b" using Cons.prems(3) by simp
  from word_split [OF kw c e] show ?case
  proof
    assume "\<exists>b1. A = a @ kw @ b1 \<and> b = b1 @ c # g @ B"
    then show ?thesis by simp
  next
    assume "\<exists>a2. g @ B = a2 @ kw @ b \<and> a = A @ c # a2"
    then obtain a2 where a2: "g @ B = a2 @ kw @ b" "a = A @ c # a2" by blast
    show ?thesis
    proof (cases g)
      case Nil
      then show ?thesis using a2 by simp
    next
      case (Cons d g')
      then have "g \<noteq> []" "\<forall>c\<in>set g. \<not> is_word c" using Cons.prems(2) by simp_all
      moreover have "[] @ g @ B = a2 @ kw @ b" using a2(1) by simp
      ultimately have "(\<exists>b1. [] = a2 @ kw @ b1 \<and> b = b1 @ g @ B) \<or>
          (\<exists>a3. B = a3 @ kw @ b \<and> a2 = [] @ g @ a3)"
        by (rule Cons.IH)
      then obtain a3 where "B = a3 @ kw @ b" "a2 = g @ a3" using kw(1) by auto
      then show ?thesis using a2(2) by simp
    qed
  qed
qed

text \<open>
  A run of code units outside the words, replaced by another: the words on both
  sides stay words of their own.
\<close>

lemma keyword_segment:
  assumes kw: "kw \<noteq> []" "\<forall>c\<in>set kw. is_word c"
    and g: "g \<noteq> []" "\<forall>c\<in>set g. \<not> is_word c"
    and g': "g' \<noteq> []" "\<forall>c\<in>set g'. \<not> is_word c"
    and k: "keyword_in kw (A @ g @ B)"
  shows "keyword_in kw (A @ g' @ B)"
proof -
  from k obtain a b where e: "A @ g @ B = a @ kw @ b"
    and wa: "a = [] \<or> \<not> is_word (last a)" and wb: "b = [] \<or> \<not> is_word (hd b)"
    unfolding keyword_in_def by blast
  have hg': "\<not> is_word (hd g')" "\<not> is_word (last g')" using g' by simp_all
  from word_split_run [OF kw g e] show ?thesis
  proof
    assume "\<exists>b1. A = a @ kw @ b1 \<and> b = b1 @ g @ B"
    then obtain b1 where b1: "A = a @ kw @ b1" "b = b1 @ g @ B" by blast
    have "b1 @ g' @ B = [] \<or> \<not> is_word (hd (b1 @ g' @ B))"
      using wb b1(2) hg'(1) g'(1) by (cases b1) auto
    moreover have "A @ g' @ B = a @ kw @ (b1 @ g' @ B)" using b1(1) by simp
    ultimately show ?thesis unfolding keyword_in_def using wa by blast
  next
    assume "\<exists>a2. B = a2 @ kw @ b \<and> a = A @ g @ a2"
    then obtain a2 where a2: "B = a2 @ kw @ b" "a = A @ g @ a2" by blast
    have "A @ g' @ a2 = [] \<or> \<not> is_word (last (A @ g' @ a2))"
      using wa a2(2) hg'(2) g'(1) by (cases a2 rule: rev_cases) auto
    moreover have "A @ g' @ B = (A @ g' @ a2) @ kw @ b" using a2(1) by simp
    ultimately show ?thesis unfolding keyword_in_def using wb by blast
  qed
qed

subsection \<open>The arrow rule and the visibility rule create no keyword\<close>

lemma arrow_rule_keywords:
  assumes kw: "kw \<noteq> []" "\<forall>c\<in>set kw. is_word c"
  shows "keyword_in kw (x @ replace_global match_arrow s) \<Longrightarrow> keyword_in kw (x @ s)"
proof (induction "length s" arbitrary: s x rule: less_induct)
  case less
  show ?case
  proof (cases s)
    case Nil
    then show ?thesis using less.prems by simp
  next
    case (Cons c cs)
    show ?thesis
    proof (cases "match_arrow s")
      case None
      then have "keyword_in kw ((x @ [c]) @ replace_global match_arrow cs)"
        using less.prems Cons by (simp add: replace_global.simps)
      then have "keyword_in kw ((x @ [c]) @ cs)"
        using less.hyps [of cs "x @ [c]"] Cons by simp
      then show ?thesis using Cons by simp
    next
      case (Some p)
      obtain r n where p: "p = (r, n)" by (cases p)
      have sm: "match_arrow s = Some (r, n)" using Some p by simp
      obtain w1 g w2 rest where mt: "s = (w1 @ g @ w2) @ rest" "n = length (w1 @ g @ w2)" "0 < n"
        and r: "r = w1 @ js '' --|> '' @ w2" and g: "g \<noteq> []" "\<forall>c\<in>set g. \<not> is_word c"
        by (rule match_arrow_SomeE [OF sm])
      have d: "drop (n - 1) cs = rest"
        using drop_match [OF mt(3) _ mt(2), of c cs rest] mt(1) Cons by simp
      have lr: "length rest < length s" using mt by simp
      have "keyword_in kw ((x @ r) @ replace_global match_arrow rest)"
        using less.prems Cons sm d by (simp add: replace_global.simps)
      then have "keyword_in kw ((x @ r) @ rest)" by (rule less.hyps [OF lr])
      then have "keyword_in kw ((x @ w1) @ js '' --|> '' @ (w2 @ rest))" using r by simp
      then have "keyword_in kw ((x @ w1) @ g @ (w2 @ rest))"
        by (rule keyword_segment [OF kw _ _ g, rotated 2]) (simp_all add: js_def is_word_def)
      then show ?thesis using mt(1) by simp
    qed
  qed
qed

lemma visibility_rule_keywords:
  assumes kw: "kw \<noteq> []" "\<forall>c\<in>set kw. is_word c"
  shows "keyword_in kw (x @ replace_visibility f s) \<Longrightarrow> keyword_in kw (x @ s)"
proof (induction "length s" arbitrary: s x f rule: less_induct)
  case less
  show ?case
  proof (cases s)
    case Nil
    then show ?thesis using less.prems by simp
  next
    case (Cons c cs)
    show ?thesis
    proof (cases "if f then match_visibility (c # cs) else None")
      case None
      then have "keyword_in kw ((x @ [c]) @ replace_visibility (is_line_terminator c) cs)"
        using less.prems Cons by (simp add: replace_visibility_None)
      then have "keyword_in kw ((x @ [c]) @ cs)"
        using less.hyps [of cs "x @ [c]"] Cons by simp
      then show ?thesis using Cons by simp
    next
      case (Some p)
      obtain r n where p: "p = (r, n)" by (cases p)
      have sf: "(if f then match_visibility (c # cs) else None) = Some (r, n)"
        using Some p by simp
      then have sm: "match_visibility s = Some (r, n)" using Cons by (cases f) auto
      obtain ws mk w rest where mt: "s = (ws @ mk # w) @ rest" "n = length (ws @ mk # w)" "0 < n"
        and r: "r = ws @ [mk, 32] @ w" and mk: "mk = 43 \<or> mk = 45 \<or> mk = 35 \<or> mk = 126"
        by (rule match_visibility_SomeE [OF sm])
      have nw: "\<not> is_word mk" "\<not> is_word 32" using mk by (auto simp add: is_word_def)
      have d: "drop (n - 1) cs = rest"
        using drop_match [OF mt(3) _ mt(2), of c cs rest] mt(1) Cons by simp
      have lr: "length rest < length s" using mt by simp
      have "keyword_in kw ((x @ r) @
          replace_visibility (is_line_terminator ((c # cs) ! (n - 1))) rest)"
        using less.prems Cons replace_visibility_Some [OF sf] d by simp
      then have "keyword_in kw ((x @ r) @ rest)" by (rule less.hyps [OF lr])
      then have "keyword_in kw ((x @ ws) @ [mk, 32] @ (w @ rest))" using r by simp
      then have "keyword_in kw ((x @ ws) @ [mk] @ (w @ rest))"
        by (rule keyword_segment [OF kw _ _ _ _, rotated 4]) (use nw in simp_all)
      then show ?thesis using mt(1) by simp
    qed
  qed
qed



subsection \<open>The enum rule leaves the keyword only where the expression does not match\<close>

lemma match_enum_without_name:
  assumes "\<forall>c\<in>set ws. is_white_space c"
  shows "match_enum (js ''enum'' @ ws @ 123 # z) = None"
proof -
  have n: "\<not> is_white_space 123" "\<not> is_word 123" by (simp_all add: is_white_space_def is_word_def)
  have r1: "drop 4 (js ''enum'' @ ws @ 123 # z) = ws @ 123 # z" by (simp add: js_def)
  have s1: "dropWhile is_white_space (ws @ 123 # z) = 123 # z"
    using span_all [OF assms, of "123 # z"] n by simp
  have s2: "takeWhile is_word (123 # z) = []" using n by simp
  show ?thesis unfolding match_enum_def Let_def r1 s1 s2 by simp
qed

lemma append_eq_longer:
  assumes "p @ q = a @ c" and "length p \<le> length a"
  shows "\<exists>a2. a = p @ a2 \<and> q = a2 @ c"
proof -
  from assms(1) consider us where "p = a @ us" "us @ q = c" | us where "p @ us = a" "q = us @ c"
    unfolding append_eq_append_conv2 by blast
  then show ?thesis
  proof cases
    case 1
    then have "us = []" using assms(2) by simp
    then show ?thesis using 1 by simp
  next
    case 2
    then show ?thesis by auto
  qed
qed

lemma enum_word_facts:
  "js ''enum'' \<noteq> []" "\<forall>c\<in>set (js ''enum''). is_word c"
  "\<forall>c\<in>set (js ''class''). is_word c" "\<forall>c\<in>set (js ''enumeration''). is_word c"
  "109 \<notin> set (js ''class'')" "last (js ''enum'') = 109"
  by (simp_all add: js_def is_word_def)

lemma class_declaration_words:
  "class_declaration name =
     js ''class'' @ 32 # name @ [32, 123, LF, 32, 32, 32, 32, 60, 60] @ js ''enumeration'' @ [62, 62]"
  by (simp add: class_declaration_def js_def)

text \<open>The keyword does not end in the word \<open>class\<close> that begins the replacement.\<close>

lemma keyword_before_class:
  assumes e: "x @ js ''class'' = a @ js ''enum'' @ b1"
  shows "\<exists>b1'. b1 = b1' @ js ''class'' \<and> x = a @ js ''enum'' @ b1'"
proof -
  from e have "x @ js ''class'' = (a @ js ''enum'') @ b1" by simp
  then consider us where "x = (a @ js ''enum'') @ us" "us @ js ''class'' = b1"
    | us where "x @ us = a @ js ''enum''" "js ''class'' = us @ b1"
    unfolding append_eq_append_conv2 by blast
  then show ?thesis
  proof cases
    case 1
    then show ?thesis by auto
  next
    case 2
    show ?thesis
    proof (cases us rule: rev_cases)
      case Nil
      then show ?thesis using 2 by auto
    next
      case (snoc us' d)
      then have "last (x @ us) = d" by simp
      then have "d = 109" using 2(1) enum_word_facts(1,6) by simp
      moreover have "d \<in> set (js ''class'')" using 2(2) snoc by (metis in_set_conv_decomp append_assoc append_Cons)
      ultimately show ?thesis using enum_word_facts(5) by simp
    qed
  qed
qed

lemma keyword_around_class_declaration:
  assumes n: "name \<noteq> []" "\<forall>c\<in>set name. is_word c"
    and w1: "ws1 \<noteq> []" "\<forall>c\<in>set ws1. is_white_space c"
    and w2: "\<forall>c\<in>set ws2. is_white_space c"
    and e: "x @ class_declaration name @ z = a @ js ''enum'' @ b"
    and wa: "a = [] \<or> \<not> is_word (last a)" and wb: "b = [] \<or> \<not> is_word (hd b)"
    and l: "length a < length x + length (class_declaration name)"
  shows "\<exists>a' b'. x @ (js ''enum'' @ ws1 @ name @ ws2 @ [123]) @ z = a' @ js ''enum'' @ b' \<and>
           (a' = [] \<or> \<not> is_word (last a')) \<and> (b' = [] \<or> \<not> is_word (hd b')) \<and>
           (length a' < length x \<or> match_enum (js ''enum'' @ b') = None)"
proof -
  let ?kw = "js ''enum''"
  let ?mt = "js ''enum'' @ ws1 @ name @ ws2 @ [123]"
  let ?g1 = "[32, 123, LF, 32, 32, 32, 32, 60, 60]"
  let ?en = "js ''enumeration''"
  note kw = enum_word_facts(1,2)
  have sp: "\<not> is_word 32" "\<not> is_word 62" "\<not> is_word 123"
    by (simp_all add: is_word_def)
  have g1: "?g1 \<noteq> []" "\<forall>c\<in>set ?g1. \<not> is_word c" by (simp_all add: is_word_def)
  have e1: "(x @ js ''class'') @ 32 # (name @ ?g1 @ ?en @ [62, 62] @ z) = a @ ?kw @ b"
    using e by (simp add: class_declaration_words)
  from word_split [OF kw sp(1) e1] show ?thesis
  proof
    assume "\<exists>b1. x @ js ''class'' = a @ ?kw @ b1 \<and> b = b1 @ 32 # name @ ?g1 @ ?en @ [62, 62] @ z"
    then obtain b1 where b1: "x @ js ''class'' = a @ ?kw @ b1"
      "b = b1 @ 32 # name @ ?g1 @ ?en @ [62, 62] @ z" by blast
    obtain b1' where b1': "b1 = b1' @ js ''class''" "x = a @ ?kw @ b1'"
      using keyword_before_class [OF b1(1)] by blast
    have "b1' \<noteq> []"
    proof
      assume "b1' = []"
      then have "hd b = 99" "b \<noteq> []" using b1(2) b1'(1) by (simp_all add: js_def)
      then show False using wb by (simp add: is_word_def)
    qed
    then have "hd (b1' @ ?mt @ z) = hd b" "b1' @ ?mt @ z \<noteq> []" "b \<noteq> []"
      using b1(2) b1'(1) by simp_all
    then have "b1' @ ?mt @ z = [] \<or> \<not> is_word (hd (b1' @ ?mt @ z))" using wb by simp
    moreover have "x @ ?mt @ z = a @ ?kw @ (b1' @ ?mt @ z)" using b1'(2) by simp
    moreover have "length a < length x" using b1'(2) kw(1) by simp
    ultimately show ?thesis using wa by blast
  next
    assume "\<exists>a2. name @ ?g1 @ ?en @ [62, 62] @ z = a2 @ ?kw @ b \<and> a = (x @ js ''class'') @ 32 # a2"
    then obtain a2 where a2: "name @ ?g1 @ (?en @ [62, 62] @ z) = a2 @ ?kw @ b"
      "a = (x @ js ''class'') @ 32 # a2" by auto
    from word_split_run [OF kw g1 a2(1)] show ?thesis
    proof
      assume "\<exists>b3. name = a2 @ ?kw @ b3 \<and> b = b3 @ ?g1 @ ?en @ [62, 62] @ z"
      then obtain b3 where b3: "name = a2 @ ?kw @ b3" "b = b3 @ ?g1 @ ?en @ [62, 62] @ z"
        by blast
      have "a2 = []"
      proof (rule ccontr)
        assume "a2 \<noteq> []"
        then have "last a = last a2" "a \<noteq> []" "last a2 \<in> set name"
          using a2(2) b3(1) by simp_all
        then show False using wa n(2) by auto
      qed
      moreover have "b3 = []"
      proof (rule ccontr)
        assume "b3 \<noteq> []"
        then have "hd b = hd b3" "b \<noteq> []" "hd b3 \<in> set name"
          using b3 by simp_all
        then show False using wb n(2) by auto
      qed
      ultimately have nm: "name = ?kw" using b3(1) by simp
      have "\<not> is_word (last ws1)" using w1 white_space_not_word last_in_set by blast
      then have 1: "x @ ?kw @ ws1 = [] \<or> \<not> is_word (last (x @ ?kw @ ws1))" using w1(1) by simp
      have "\<not> is_word (hd (ws2 @ 123 # z))"
        using w2 white_space_not_word sp(3) by (cases ws2) auto
      then have 2: "ws2 @ 123 # z = [] \<or> \<not> is_word (hd (ws2 @ 123 # z))" by simp
      have 3: "x @ ?mt @ z = (x @ ?kw @ ws1) @ ?kw @ (ws2 @ 123 # z)" using nm by simp
      have 4: "match_enum (?kw @ ws2 @ 123 # z) = None" by (rule match_enum_without_name [OF w2])
      show ?thesis using 1 2 3 4 by blast
    next
      assume "\<exists>a3. ?en @ [62, 62] @ z = a3 @ ?kw @ b \<and> a2 = name @ ?g1 @ a3"
      then obtain a3 where a3: "?en @ 62 # (62 # z) = a3 @ ?kw @ b" "a2 = name @ ?g1 @ a3"
        by auto
      from word_split [OF kw sp(2) a3(1)] show ?thesis
      proof
        assume "\<exists>b4. ?en = a3 @ ?kw @ b4 \<and> b = b4 @ 62 # 62 # z"
        then obtain b4 where b4: "?en = a3 @ ?kw @ b4" "b = b4 @ 62 # 62 # z" by blast
        have "a3 = []"
        proof (rule ccontr)
          assume "a3 \<noteq> []"
          then have "last a = last a3" "a \<noteq> []" using a2(2) a3(2) by simp_all
          moreover have "last a3 \<in> set ?en" using b4(1) \<open>a3 \<noteq> []\<close>
            by (metis last_in_set in_set_conv_decomp append_assoc Un_iff set_append)
          ultimately show False using wa enum_word_facts(4) by auto
        qed
        then have "b4 = js ''eration''" using b4(1) by (simp add: js_def)
        then have "hd b = 101" "b \<noteq> []" using b4(2) by (simp_all add: js_def)
        then show ?thesis using wb by (simp add: is_word_def)
      next
        assume "\<exists>a4. 62 # z = a4 @ ?kw @ b \<and> a3 = ?en @ 62 # a4"
        then obtain a4 where a4: "62 # z = a4 @ ?kw @ b" "a3 = ?en @ 62 # a4" by blast
        have "a4 \<noteq> []" using a4(1) by (auto simp add: js_def)
        then have "0 < length a4" by simp
        moreover have "length a = length x + length (class_declaration name) - 1 + length a4"
          using a2(2) a3(2) a4(2) by (simp add: class_declaration_words)
        ultimately have "\<not> length a < length x + length (class_declaration name)" by arith
        then show ?thesis using l by simp
      qed
    qed
  qed
qed

text \<open>
  A keyword \<open>enum\<close> in the result of the enum rule after a text \<open>x\<close>: the text
  before the rule has the keyword, in \<open>x\<close> or at a position where the expression does
  not match.
\<close>

lemma enum_rule_keywords:
  "x @ replace_global match_enum s = a @ js ''enum'' @ b \<Longrightarrow>
   a = [] \<or> \<not> is_word (last a) \<Longrightarrow> b = [] \<or> \<not> is_word (hd b) \<Longrightarrow>
   \<exists>a' b'. x @ s = a' @ js ''enum'' @ b' \<and>
     (a' = [] \<or> \<not> is_word (last a')) \<and> (b' = [] \<or> \<not> is_word (hd b')) \<and>
     (length a' < length x \<or> match_enum (js ''enum'' @ b') = None)"
proof (induction "length s" arbitrary: s x a b rule: less_induct)
  case less
  let ?kw = "js ''enum''"
  show ?case
  proof (cases s)
    case Nil
    then have "x @ s = a @ ?kw @ b" "length a < length x"
      using less.prems(1) enum_word_facts(1) by auto
    then show ?thesis using less.prems(2,3) by blast
  next
    case (Cons c cs)
    show ?thesis
    proof (cases "match_enum s")
      case None
      then have "(x @ [c]) @ replace_global match_enum cs = a @ ?kw @ b"
        using less.prems(1) Cons by (simp add: replace_global.simps)
      then obtain a' b' where ab: "(x @ [c]) @ cs = a' @ ?kw @ b'"
        "a' = [] \<or> \<not> is_word (last a')" "b' = [] \<or> \<not> is_word (hd b')"
        "length a' < length (x @ [c]) \<or> match_enum (?kw @ b') = None"
        using less.hyps [of cs "x @ [c]" a b] less.prems(2,3) Cons by auto
      have "length a' < length x \<or> match_enum (?kw @ b') = None"
      proof (cases "length a' = length x")
        case True
        have "take (length x) (x @ s) = take (length a') (a' @ ?kw @ b')"
          using ab(1) Cons True by simp
        then have "x = a'" by simp
        then have "s = ?kw @ b'" using ab(1) Cons by simp
        then show ?thesis using None by simp
      next
        case False
        then show ?thesis using ab(4) by auto
      qed
      moreover have "x @ s = a' @ ?kw @ b'" using ab(1) Cons by simp
      ultimately show ?thesis using ab(2,3) by blast
    next
      case (Some p)
      obtain r n where p: "p = (r, n)" by (cases p)
      have sm: "match_enum s = Some (r, n)" using Some p by simp
      obtain ws1 name ws2 rest where mt: "s = js ''enum'' @ ws1 @ name @ ws2 @ 123 # rest"
        "n = length (js ''enum'' @ ws1 @ name @ ws2 @ [123])"
        and w1: "ws1 \<noteq> []" "\<forall>c\<in>set ws1. is_white_space c"
        and name: "name \<noteq> []" "\<forall>c\<in>set name. is_word c"
        and w2: "\<forall>c\<in>set ws2. is_white_space c" and r: "r = class_declaration name"
        by (rule match_enum_parts [OF sm])
      let ?mt = "js ''enum'' @ ws1 @ name @ ws2 @ [123]"
      have s: "s = ?mt @ rest" using mt(1) by simp
      have n0: "0 < n" using mt(2) by (simp add: js_def)
      have d: "drop (n - 1) cs = rest"
        using drop_match [OF n0 _ mt(2), of c cs rest] s Cons by simp
      have lr: "length rest < length s" using s by simp
      have "(x @ r) @ replace_global match_enum rest = a @ ?kw @ b"
        using less.prems(1) Cons sm d by (simp add: replace_global.simps)
      then obtain a' b' where ab: "(x @ r) @ rest = a' @ ?kw @ b'"
        "a' = [] \<or> \<not> is_word (last a')" "b' = [] \<or> \<not> is_word (hd b')"
        "length a' < length (x @ r) \<or> match_enum (?kw @ b') = None"
        using less.hyps [OF lr, of "x @ r" a b] less.prems(2,3) by auto
      show ?thesis
      proof (cases "length a' < length (x @ r)")
        case True
        have "x @ class_declaration name @ rest = a' @ ?kw @ b'" using ab(1) r by simp
        moreover have "length a' < length x + length (class_declaration name)"
          using True r by simp
        ultimately have "\<exists>a'' b''. x @ ?mt @ rest = a'' @ ?kw @ b'' \<and>
            (a'' = [] \<or> \<not> is_word (last a'')) \<and> (b'' = [] \<or> \<not> is_word (hd b'')) \<and>
            (length a'' < length x \<or> match_enum (?kw @ b'') = None)"
          using keyword_around_class_declaration [OF name w1 w2 _ ab(2,3)] by blast
        then show ?thesis unfolding s by simp
      next
        case False
        then have m: "match_enum (?kw @ b') = None" using ab(4) by simp
        have "length (x @ r) \<le> length a'" using False by simp
        then obtain a2 where a': "a' = (x @ r) @ a2" and rest: "rest = a2 @ ?kw @ b'"
          using append_eq_longer [OF ab(1)] by blast
        have "\<not> is_word (last ((x @ ?mt) @ a2))"
        proof (cases a2 rule: rev_cases)
          case Nil
          then show ?thesis by (simp add: is_word_def)
        next
          case (snoc a2' d)
          then show ?thesis using ab(2) a' by simp
        qed
        then have "(x @ ?mt) @ a2 = [] \<or> \<not> is_word (last ((x @ ?mt) @ a2))" by simp
        moreover have "x @ s = ((x @ ?mt) @ a2) @ ?kw @ b'" using s rest by simp
        ultimately show ?thesis using ab(3) m by blast
      qed
    qed
  qed
qed

subsection \<open>The class diagram rules and the keyword\<close>

lemma fix_class_diagram_keyword:
  assumes "has_keyword (fix_class_diagram s) (js ''enum'')"
  shows "\<exists>a b. s = a @ js ''enum'' @ b \<and> (a = [] \<or> \<not> is_word (last a)) \<and>
           (b = [] \<or> \<not> is_word (hd b)) \<and> match_enum (js ''enum'' @ b) = None"
proof -
  note kw = enum_word_facts(1,2)
  have "keyword_in (js ''enum'') ([] @ replace_visibility True
      (replace_global match_arrow (replace_global match_enum s)))"
    using has_keyword_occurrence [OF assms] by (simp add: fix_class_diagram_def)
  then have "keyword_in (js ''enum'') ([] @ replace_global match_arrow (replace_global match_enum s))"
    by (rule visibility_rule_keywords [OF kw])
  then have "keyword_in (js ''enum'') ([] @ replace_global match_enum s)"
    by (rule arrow_rule_keywords [OF kw])
  then obtain a b where "[] @ replace_global match_enum s = a @ js ''enum'' @ b"
    "a = [] \<or> \<not> is_word (last a)" "b = [] \<or> \<not> is_word (hd b)"
    unfolding keyword_in_def by auto
  then have "\<exists>a' b'. [] @ s = a' @ js ''enum'' @ b' \<and>
     (a' = [] \<or> \<not> is_word (last a')) \<and> (b' = [] \<or> \<not> is_word (hd b')) \<and>
     (length a' < length ([] :: jsstring) \<or> match_enum (js ''enum'' @ b') = None)"
    by (rule enum_rule_keywords)
  then show ?thesis by simp
qed



subsection \<open>The header of a class diagram\<close>

lemma literal_copies_word:
  assumes "\<forall>c\<in>set p. is_word c" and "pat \<noteq> []" and "\<not> is_word (hd pat)"
  shows "replace_global (match_literal pat rep) (p @ r) = p @ replace_global (match_literal pat rep) r"
proof (rule replace_global_copy)
  fix o1 o2 assume a: "p = o1 @ o2" "o2 \<noteq> []"
  then have "is_word (hd o2)" using assms(1) by (cases o2) auto
  then have "\<not> prefix pat (o2 @ r)" using assms(2,3) a(2) by (cases pat; cases o2) auto
  then show "match_literal pat rep (o2 @ r) = None" by (simp add: match_literal_def)
qed

lemma trim_keeps_word_prefix:
  assumes "p \<noteq> []" and "\<forall>c\<in>set p. is_word c"
  shows "\<exists>r'. trim (p @ r) = p @ r'"
proof -
  have h: "\<not> is_white_space (hd p)" "\<not> is_white_space (last p)"
    using assms is_word_facts(1) by auto
  have 1: "dropWhile is_white_space (p @ r) = p @ r"
    using h(1) assms(1) by (cases p) auto
  have "dropWhile is_white_space (rev r @ rev p) = dropWhile is_white_space (rev r) @ rev p"
    using span_keep [of "rev p" is_white_space "rev r"] assms(1) h(2) by (simp add: hd_rev)
  then have "trim (p @ r) = p @ rev (dropWhile is_white_space (rev r))"
    unfolding trim_def 1 by simp
  then show ?thesis by blast
qed

lemma hd_split_lines_append:
  "LF \<notin> set p \<Longrightarrow> hd (split_lines (p @ r)) = p @ hd (split_lines r)"
  by (induction p) auto

lemma class_header_of_input:
  assumes "startsWith code (js ''classDiagram'')"
  shows "startsWith (header_of (normalize_environment code)) (js ''classDiagram'')"
proof -
  let ?p = "js ''classDiagram''"
  have w: "\<forall>c\<in>set ?p. is_word c" by (simp add: js_def is_word_def)
  have ne: "?p \<noteq> []" by (simp add: js_def)
  have lf: "LF \<notin> set ?p" by (simp add: js_def)
  obtain r where r: "code = ?p @ r" using assms by (auto simp add: startsWith_def prefix_def)
  have step: "replace_global (match_literal pat rep) (?p @ t) =
      ?p @ replace_global (match_literal pat rep) t"
    if "pat \<noteq> []" "\<not> is_word (hd pat)" for pat rep t
    using literal_copies_word [OF w that] .
  have "\<exists>t. replace_global (match_literal [96, 96, 96] [])
         (replace_global (match_literal ([96, 96, 96] @ js ''mermaid'') [])
           (replace_global (match_literal [160] [32])
             (replace_global (match_literal [13, 10] [LF])
               (replace_global (match_literal [92, 110] [LF]) (?p @ r))))) = ?p @ t"
    by (simp add: step is_word_def)
  then obtain t where "normalize_environment code = trim (?p @ t)"
    unfolding normalize_environment_def r by auto
  then obtain t' where t': "normalize_environment code = ?p @ t'"
    using trim_keeps_word_prefix [OF ne w, of t] by auto
  have "hd (split_lines (?p @ t')) = ?p @ hd (split_lines t')"
    using hd_split_lines_append [OF lf] .
  then obtain t'' where "header_of (normalize_environment code) = ?p @ t''"
    unfolding header_of_def t' using trim_keeps_word_prefix [OF ne w, of "hd (split_lines t')"]
    by auto
  then show ?thesis by (simp add: startsWith_def)
qed

lemma fixMermaidCode_class:
  assumes "startsWith (header_of (normalize_environment code)) (js ''classDiagram'')"
  shows "fixMermaidCode code = fix_class_diagram (normalize_environment code)"
  using assms unfolding fixMermaidCode_def header_of_def Let_def by simp

text \<open>
  Claim C5, amended. For every input whose first line begins with \<open>classDiagram\<close>
  (also after step 1 only) and that contains \<open>enum Foo {\<close> for a name \<open>Foo\<close>
  of word characters, the output of the normalizer contains the class declaration
  \<open>class Foo {\<close>, a line feed, and \<open><<enumeration>>\<close> after four spaces.
  The keyword \<open>enum\<close> is left only where the expression of the enum rule does not
  match: if the output has the keyword, as a word of its own, then the input after
  step 1 has the keyword at a position where the expression does not match. The
  expression matches at no position of the output, and the output contains
  \<open>enum X {\<close> for no name \<open>X\<close>.
\<close>

theorem class_diagram_enum_becomes_class:
  assumes "startsWith code (js ''classDiagram'') \<or>
           startsWith (header_of (normalize_environment code)) (js ''classDiagram'')"
    and "name \<noteq> []" and "\<forall>c\<in>set name. is_word c"
    and "str_includes code (enum_declaration name)"
  shows "str_includes (fixMermaidCode code) (class_declaration name) \<and>
         (has_keyword (fixMermaidCode code) (js ''enum'') \<longrightarrow>
            (\<exists>a b. normalize_environment code = a @ js ''enum'' @ b \<and>
                   (a = [] \<or> \<not> is_word (last a)) \<and> (b = [] \<or> \<not> is_word (hd b)) \<and>
                   match_enum (js ''enum'' @ b) = None)) \<and>
         (\<forall>i. match_enum (drop i (fixMermaidCode code)) = None) \<and>
         (\<forall>n. n \<noteq> [] \<and> (\<forall>c\<in>set n. is_word c) \<longrightarrow>
              \<not> str_includes (fixMermaidCode code) (enum_declaration n))"
proof -
  have h: "startsWith (header_of (normalize_environment code)) (js ''classDiagram'')"
    using assms(1) class_header_of_input by blast
  have out: "fixMermaidCode code = fix_class_diagram (normalize_environment code)"
    by (rule fixMermaidCode_class [OF h])
  have "sublist (enum_declaration name) (normalize_environment code)"
    using normalize_keeps_enum_declaration [OF assms(3)] assms(4) by (simp add: str_includes_def)
  then have "sublist (class_declaration name) (replace_global match_enum (normalize_environment code))"
    by (rule enum_rule_rewrites_declaration [OF assms(2,3)])
  then have "sublist (class_declaration name)
      (replace_global match_arrow (replace_global match_enum (normalize_environment code)))"
    by (rule arrow_rule_keeps_class_declaration [OF assms(2,3)])
  then have "sublist (class_declaration name) (fix_class_diagram (normalize_environment code))"
    unfolding fix_class_diagram_def
    by (rule visibility_rule_keeps_class_declaration [OF assms(2,3)])
  then have 1: "str_includes (fixMermaidCode code) (class_declaration name)"
    unfolding out by (simp add: str_includes_def)
  have 2: "\<forall>i. match_enum (drop i (fixMermaidCode code)) = None"
    unfolding out by (simp add: fix_class_diagram_no_enum_match)
  have 3: "\<forall>n. n \<noteq> [] \<and> (\<forall>c\<in>set n. is_word c) \<longrightarrow>
      \<not> str_includes (fixMermaidCode code) (enum_declaration n)"
    unfolding out str_includes_def using fix_class_diagram_no_enum_declaration by blast
  have 4: "has_keyword (fixMermaidCode code) (js ''enum'') \<longrightarrow>
      (\<exists>a b. normalize_environment code = a @ js ''enum'' @ b \<and>
             (a = [] \<or> \<not> is_word (last a)) \<and> (b = [] \<or> \<not> is_word (hd b)) \<and>
             match_enum (js ''enum'' @ b) = None)"
    unfolding out by (rule impI) (rule fix_class_diagram_keyword)
  show ?thesis by (intro conjI 1 4 2 3)
qed



lemma ex5_normalized:
  "normalize_environment (js ''classDiagram'' @ [LF] @ js ''enum Foo {}'' @ [LF] @ js ''enum {}'') =
     js ''classDiagram'' @ [LF] @ js ''enum Foo {}'' @ [LF] @ js ''enum {}''"
  by (rule normalize_environment_id)
     (simp add: environment_normal_def str_includes_def js_def is_white_space_def sublist_Cons_right)

lemma ex5_enum:
  "replace_global match_enum (js ''classDiagram'' @ [LF] @ js ''enum Foo {}'' @ [LF] @ js ''enum {}'') =
     js ''classDiagram'' @ [LF] @ js ''class Foo {'' @ [LF] @ js ''    <<enumeration>>}'' @ [LF] @
     js ''enum {}''"
  by (simp add: replace_global.simps match_enum_def js_def is_white_space_def is_word_def Let_def)

lemma ex5_arrow:
  "replace_global match_arrow
     (js ''classDiagram'' @ [LF] @ js ''class Foo {'' @ [LF] @ js ''    <<enumeration>>}'' @ [LF] @
      js ''enum {}'') =
     js ''classDiagram'' @ [LF] @ js ''class Foo {'' @ [LF] @ js ''    <<enumeration>>}'' @ [LF] @
     js ''enum {}''"
  by (simp add: replace_global.simps match_arrow_def js_def is_white_space_def is_word_def Let_def)

lemma ex5_visibility:
  "replace_visibility True
     (js ''classDiagram'' @ [LF] @ js ''class Foo {'' @ [LF] @ js ''    <<enumeration>>}'' @ [LF] @
      js ''enum {}'') =
     js ''classDiagram'' @ [LF] @ js ''class Foo {'' @ [LF] @ js ''    <<enumeration>>}'' @ [LF] @
     js ''enum {}''"
  by (simp add: replace_visibility.simps match_visibility_def js_def is_white_space_def is_word_def
      is_line_terminator_def Let_def)


lemma ex5_fixed:
  "fixMermaidCode (js ''classDiagram'' @ [LF] @ js ''enum Foo {}'' @ [LF] @ js ''enum {}'') =
     js ''classDiagram'' @ [LF] @ js ''class Foo {'' @ [LF] @ js ''    <<enumeration>>}'' @ [LF] @
     js ''enum {}''"
proof -
  have "startsWith (js ''classDiagram'' @ [LF] @ js ''enum Foo {}'' @ [LF] @ js ''enum {}'')
          (js ''classDiagram'')"
    by (simp add: startsWith_def)
  then have "fixMermaidCode (js ''classDiagram'' @ [LF] @ js ''enum Foo {}'' @ [LF] @ js ''enum {}'') =
      fix_class_diagram
        (normalize_environment (js ''classDiagram'' @ [LF] @ js ''enum Foo {}'' @ [LF] @ js ''enum {}''))"
    by (intro fixMermaidCode_class class_header_of_input)
  then show ?thesis
    by (simp only: ex5_normalized fix_class_diagram_def ex5_enum ex5_arrow ex5_visibility)
qed

lemma ex5_includes:
  "str_includes (js ''classDiagram'' @ [LF] @ js ''enum Foo {}'' @ [LF] @ js ''enum {}'')
     (enum_declaration (js ''Foo''))"
proof -
  have "js ''classDiagram'' @ [LF] @ js ''enum Foo {}'' @ [LF] @ js ''enum {}'' =
        (js ''classDiagram'' @ [LF]) @ enum_declaration (js ''Foo'') @ (js ''}'' @ [LF] @ js ''enum {}'')"
    by (simp add: enum_declaration_def js_def)
  then show ?thesis unfolding str_includes_def by (metis sublist_appendI)
qed

lemma ex5_keyword:
  "has_keyword
     (js ''classDiagram'' @ [LF] @ js ''class Foo {'' @ [LF] @ js ''    <<enumeration>>}'' @ [LF] @
      js ''enum {}'') (js ''enum'')"
  by (simp add: has_keyword_def js_def is_word_def)

text \<open>
  Claim C5 as stated fails: an \<open>enum\<close> that no name follows is not rewritten, so the
  output still has the keyword.
\<close>

theorem class_diagram_keeps_enum_keyword_counterexample:
  "startsWith (js ''classDiagram'' @ [LF] @ js ''enum Foo {}'' @ [LF] @ js ''enum {}'')
     (js ''classDiagram'') \<and>
   str_includes (js ''classDiagram'' @ [LF] @ js ''enum Foo {}'' @ [LF] @ js ''enum {}'')
     (enum_declaration (js ''Foo'')) \<and>
   fixMermaidCode (js ''classDiagram'' @ [LF] @ js ''enum Foo {}'' @ [LF] @ js ''enum {}'') =
     js ''classDiagram'' @ [LF] @ js ''class Foo {'' @ [LF] @ js ''    <<enumeration>>}'' @ [LF] @
     js ''enum {}'' \<and>
   has_keyword
     (fixMermaidCode (js ''classDiagram'' @ [LF] @ js ''enum Foo {}'' @ [LF] @ js ''enum {}''))
     (js ''enum'')"
proof -
  have "startsWith (js ''classDiagram'' @ [LF] @ js ''enum Foo {}'' @ [LF] @ js ''enum {}'')
          (js ''classDiagram'')"
    by (simp add: startsWith_def)
  then show ?thesis
    using ex5_includes ex5_keyword by (simp only: ex5_fixed simp_thms)
qed

text \<open>A witness of C5 (amended).\<close>

theorem class_diagram_enum_becomes_class_witness:
  "str_includes (js ''classDiagram'' @ [LF] @ js ''enum Foo {}'' @ [LF] @ js ''enum {}'')
     (enum_declaration (js ''Foo'')) \<and>
   str_includes
     (fixMermaidCode (js ''classDiagram'' @ [LF] @ js ''enum Foo {}'' @ [LF] @ js ''enum {}''))
     (class_declaration (js ''Foo'')) \<and>
   has_keyword
     (fixMermaidCode (js ''classDiagram'' @ [LF] @ js ''enum Foo {}'' @ [LF] @ js ''enum {}''))
     (js ''enum'') \<and>
   (\<exists>a b. js ''classDiagram'' @ [LF] @ js ''enum Foo {}'' @ [LF] @ js ''enum {}'' =
            a @ js ''enum'' @ b \<and>
          (a = [] \<or> \<not> is_word (last a)) \<and> (b = [] \<or> \<not> is_word (hd b)) \<and>
          match_enum (js ''enum'' @ b) = None) \<and>
   \<not> str_includes
     (fixMermaidCode (js ''classDiagram'' @ [LF] @ js ''enum Foo {}'' @ [LF] @ js ''enum {}''))
     (enum_declaration (js ''Foo'')) \<and>
   match_enum (drop 13
     (fixMermaidCode (js ''classDiagram'' @ [LF] @ js ''enum Foo {}'' @ [LF] @ js ''enum {}''))) =
     None \<and>
   fixMermaidCode (js ''classDiagram'' @ [LF] @ js ''enum Foo {}'' @ [LF] @ js ''enum {}'') =
     js ''classDiagram'' @ [LF] @ js ''class Foo {'' @ [LF] @ js ''    <<enumeration>>}'' @ [LF] @
     js ''enum {}''"
proof -
  let ?code = "js ''classDiagram'' @ [LF] @ js ''enum Foo {}'' @ [LF] @ js ''enum {}''"
  have s: "startsWith ?code (js ''classDiagram'')"
    by (simp add: startsWith_def)
  have f: "js ''Foo'' \<noteq> []" "\<forall>c\<in>set (js ''Foo''). is_word c"
    by (simp_all add: js_def is_word_def)
  have k: "has_keyword (fixMermaidCode ?code) (js ''enum'')"
    using ex5_keyword by (simp only: ex5_fixed)
  have t: "str_includes (fixMermaidCode ?code) (class_declaration (js ''Foo'')) \<and>
      (has_keyword (fixMermaidCode ?code) (js ''enum'') \<longrightarrow>
         (\<exists>a b. normalize_environment ?code = a @ js ''enum'' @ b \<and>
                (a = [] \<or> \<not> is_word (last a)) \<and> (b = [] \<or> \<not> is_word (hd b)) \<and>
                match_enum (js ''enum'' @ b) = None)) \<and>
      (\<forall>i. match_enum (drop i (fixMermaidCode ?code)) = None) \<and>
      (\<forall>n. n \<noteq> [] \<and> (\<forall>c\<in>set n. is_word c) \<longrightarrow>
           \<not> str_includes (fixMermaidCode ?code) (enum_declaration n))"
    using class_diagram_enum_becomes_class [of ?code "js ''Foo''"] s f ex5_includes
    by blast
  have 1: "str_includes (fixMermaidCode ?code) (class_declaration (js ''Foo''))"
    using t by (rule conjunct1)
  have 2: "\<exists>a b. ?code = a @ js ''enum'' @ b \<and>
      (a = [] \<or> \<not> is_word (last a)) \<and> (b = [] \<or> \<not> is_word (hd b)) \<and>
      match_enum (js ''enum'' @ b) = None"
    using t k unfolding ex5_normalized by (elim conjE impE) assumption+
  have 3: "\<not> str_includes (fixMermaidCode ?code) (enum_declaration (js ''Foo''))"
    using t f by blast
  have 4: "match_enum (drop 13 (fixMermaidCode ?code)) = None" using t by blast
  show ?thesis by (intro conjI ex5_includes 1 k 2 3 4 ex5_fixed)
qed

end
